theory Spec2Isabelle
  imports Complex_Main "HOL-Library.Word"
begin

unbundle bit_operations_syntax

section \<open>Data model\<close>

text \<open>
  The source works on raw memory: \<^verbatim>\<open>using byte = unsigned char\<close>, and buffers are
  addressed by pointer plus index. A buffer whose extent is not part of the function's
  interface (the caller-allocated \<^verbatim>\<open>output\<close>, the two scratch arrays of a worker) is a
  function from byte index to byte; a buffer that comes with its length (\<^verbatim>\<open>input\<close> with
  \<^verbatim>\<open>insize\<close>) is a list.
\<close>

type_synonym byte = "8 word"
type_synonym buffer = "nat \<Rightarrow> byte"

text \<open>\<^verbatim>\<open>static const int CS = 1024 * 16;  // chunk size (in bytes) [must be multiple of 8]\<close>\<close>

definition CS :: nat where
  "CS = 1024 * 16"

text \<open>
  \<^verbatim>\<open>memcpy(&dst[a], src, n)\<close> with the \<open>n\<close> source bytes given as a list, and the bytes
  \<open>buf[a .. a+n)\<close> read back from a buffer.
\<close>

definition memcpy :: "buffer \<Rightarrow> nat \<Rightarrow> byte list \<Rightarrow> buffer" where
  "memcpy dst a src = (\<lambda>i. if a \<le> i \<and> i < a + length src then src ! (i - a) else dst i)"

definition bytes_of :: "buffer \<Rightarrow> nat \<Rightarrow> nat \<Rightarrow> byte list" where
  "bytes_of buf a n = map (\<lambda>i. buf (a + i)) [0..<n]"

text \<open>
  Storing an integer through a pointer cast (\<^verbatim>\<open>(long long*)output\<close>,
  \<^verbatim>\<open>(unsigned short*)&head_out[1]\<close>) writes its low \<open>n\<close> bytes in host order. The
  framework's CPU targets are little-endian, so byte \<open>k\<close> holds bits \<open>8k .. 8k+7\<close>.
  Keeping \<open>n\<close> bytes is reduction modulo \<open>2 ^ (8 * n)\<close>: this is the conversion of
  \<^verbatim>\<open>int csize\<close> to \<^verbatim>\<open>unsigned short\<close> and of \<^verbatim>\<open>insize\<close> to the 64-bit header.
\<close>

fun le_bytes :: "nat \<Rightarrow> nat \<Rightarrow> byte list" where
  "le_bytes 0 x = []"
| "le_bytes (Suc n) x = word_of_nat (x mod 256) # le_bytes n (x div 256)"

fun le_value :: "byte list \<Rightarrow> nat" where
  "le_value [] = 0"
| "le_value (b # bs) = unat b + 256 * le_value bs"

section \<open>Chunk planner\<close>

text \<open>
  The first lines of \<^verbatim>\<open>h_encode\<close> and of its loop body:
  \<^verbatim>\<open>
  const long long chunks = (insize + CS - 1) / CS;  // round up
  const long long base = chunkID * CS;
  const int osize = (int)std::min((long long)CS, insize - base);
  \<close>
  \<^verbatim>\<open>insize\<close> is the length of a buffer in memory, so it is not negative and
  \<^verbatim>\<open>insize + CS - 1\<close> stays far below \<open>2 ^ 63\<close>; inside the loop
  \<^verbatim>\<open>chunkID < chunks\<close>, so \<^verbatim>\<open>insize - base\<close> is positive. The quantities are
  natural numbers here.
\<close>

definition chunk_count :: "nat \<Rightarrow> nat" where
  "chunk_count insize = (insize + CS - 1) div CS"

definition chunk_base :: "nat \<Rightarrow> nat" where
  "chunk_base chunkID = chunkID * CS"

definition chunk_osize :: "nat \<Rightarrow> nat \<Rightarrow> nat" where
  "chunk_osize insize chunkID = min CS (insize - chunk_base chunkID)"

section \<open>The compression stage\<close>

text \<open>
  \<^verbatim>\<open>h_encode\<close> calls \<^verbatim>\<open>good = h_BIT_4(csize, in, out)\<close>, declared in
  \<^verbatim>\<open>components/h_BIT_4.h\<close>, which is not part of this source file. The stage is
  therefore a parameter of the encoder. It receives the chunk (the first \<^verbatim>\<open>csize\<close>
  bytes of \<^verbatim>\<open>in\<close>), and returns its verdict, the new value of the reference parameter
  \<^verbatim>\<open>csize\<close>, and the contents it leaves in the two scratch arrays of the worker, both
  of which it may overwrite.
\<close>

record stage_result =
  good :: bool
  csize :: int
  scratch_in :: buffer
  scratch_out :: buffer

type_synonym stage = "byte list \<Rightarrow> stage_result"

section \<open>The encoder\<close>

text \<open>
  A run of the encoder either returns, or a worker polls a carry slot that stays \<open>0\<close> for
  ever, or the behaviour is undefined (a \<^verbatim>\<open>memcpy\<close> with a negative length, a read of
  \<^verbatim>\<open>carry[-1]\<close>).
\<close>

datatype 'a run = Returned 'a | Spinning nat | Undefined

text \<open>
  The state shared by the iterations of the parallel loop: the \<^verbatim>\<open>carry\<close> array and the
  \<^verbatim>\<open>output\<close> buffer, which \<^verbatim>\<open>head_out\<close>, \<^verbatim>\<open>size_out\<close> and \<^verbatim>\<open>data_out\<close>
  address at byte offsets \<open>0\<close>, \<open>8\<close> and \<open>8 + 2 * chunks\<close>. The values of \<^verbatim>\<open>carry\<close> are
  sums of sizes that are not negative, so they are natural numbers.
\<close>

record enc_state =
  carry :: "nat list"
  outbuf :: buffer

text \<open>
  One iteration of the loop, for \<^verbatim>\<open>chunkID\<close>:
  \<^verbatim>\<open>
    const long long base = chunkID * CS;
    const int osize = (int)std::min((long long)CS, insize - base);
    memcpy(out, &input[base], osize);
    int csize = osize;
    bool good = true;
    if (good) { std::swap(in, out); good = h_BIT_4(csize, in, out); }
    long long offs = 0LL;
    if (chunkID > 0) {
      do { offs = carry[chunkID - 1]; } while (offs == 0);
    }
    if (good && (csize < osize)) {
      carry[chunkID] = (offs + (long long)csize);
      size_out[chunkID] = csize;
      memcpy(&data_out[offs], out, csize);
    } else {
      carry[chunkID] = (offs + (long long)osize);
      size_out[chunkID] = osize;
      memcpy(&data_out[offs], &input[base], osize);
    }
  \<close>
  A carry slot is written once, by its own iteration, so the \<^verbatim>\<open>do ... while\<close> loop ends
  exactly when the value its predecessor publishes is not \<open>0\<close>. In the compressed branch a
  negative \<^verbatim>\<open>csize\<close> becomes a \<^verbatim>\<open>memcpy\<close> length near \<open>2 ^ 64\<close>.
\<close>

definition encode_chunk :: "stage \<Rightarrow> byte list \<Rightarrow> nat \<Rightarrow> enc_state \<Rightarrow> enc_state run" where
  "encode_chunk h_BIT_4 input chunkID s =
    (let insize = length input;
         chunks = chunk_count insize;
         size_out = 8;
         data_out = size_out + 2 * chunks;
         base = chunk_base chunkID;
         osize = chunk_osize insize chunkID;
         r = h_BIT_4 (take osize (drop base input))
     in if 0 < chunkID \<and> carry s ! (chunkID - 1) = 0 then Spinning chunkID
        else
          let offs = (if 0 < chunkID then carry s ! (chunkID - 1) else 0)
          in if good r \<and> csize r < int osize
             then if csize r < 0 then Undefined
                  else Returned
                    \<lparr>carry = (carry s)[chunkID := offs + nat (csize r)],
                     outbuf = memcpy
                       (memcpy (outbuf s) (size_out + 2 * chunkID) (le_bytes 2 (nat (csize r))))
                       (data_out + offs) (bytes_of (scratch_out r) 0 (nat (csize r)))\<rparr>
             else Returned
                    \<lparr>carry = (carry s)[chunkID := offs + osize],
                     outbuf = memcpy
                       (memcpy (outbuf s) (size_out + 2 * chunkID) (le_bytes 2 osize))
                       (data_out + offs) (take osize (drop base input))\<rparr>)"

text \<open>
  The loop \<^verbatim>\<open>#pragma omp parallel for schedule(dynamic, 1)\<close>. An iteration reads the
  input, which nobody writes, and the carry slot of its predecessor, for which it waits;
  it writes its own carry slot, its own entry of the size table and the payload bytes from
  its own offset on. What it stores depends on nothing else, so every schedule stores what
  the schedule in the order of \<^verbatim>\<open>chunkID\<close> stores, and that one is followed here.
\<close>

fun encode_chunks :: "stage \<Rightarrow> byte list \<Rightarrow> nat list \<Rightarrow> enc_state \<Rightarrow> enc_state run" where
  "encode_chunks h_BIT_4 input [] s = Returned s"
| "encode_chunks h_BIT_4 input (chunkID # rest) s =
     (case encode_chunk h_BIT_4 input chunkID s of
        Returned s' \<Rightarrow> encode_chunks h_BIT_4 input rest s'
      | Spinning c \<Rightarrow> Spinning c
      | Undefined \<Rightarrow> Undefined)"

text \<open>
  The state when the loop is left:
  \<^verbatim>\<open>
  long long* const carry = new long long [chunks];
  memset(carry, 0, chunks * sizeof(long long));
  for (long long chunkID = 0; chunkID < chunks; chunkID++) { ... }
  \<close>
\<close>

definition encode_loop :: "stage \<Rightarrow> byte list \<Rightarrow> buffer \<Rightarrow> enc_state run" where
  "encode_loop h_BIT_4 input output0 =
     (let chunks = chunk_count (length input)
      in encode_chunks h_BIT_4 input [0..<chunks]
           \<lparr>carry = replicate chunks 0, outbuf = output0\<rparr>)"

text \<open>
  What \<^verbatim>\<open>h_encode\<close> hands back: the output buffer and \<^verbatim>\<open>outsize\<close>.
  \<^verbatim>\<open>
  head_out[0] = insize;
  outsize = &data_out[carry[chunks - 1]] - output;
  \<close>
  With no chunk at all (\<^verbatim>\<open>insize = 0\<close>) the last line reads \<^verbatim>\<open>carry[-1]\<close>.
\<close>

record encoded =
  out_buffer :: buffer
  outsize :: nat

definition h_encode :: "stage \<Rightarrow> byte list \<Rightarrow> buffer \<Rightarrow> encoded run" where
  "h_encode h_BIT_4 input output0 =
     (let insize = length input;
          chunks = chunk_count insize;
          head_out = 0;
          size_out = head_out + 8;
          data_out = size_out + 2 * chunks
      in case encode_loop h_BIT_4 input output0 of
           Returned s \<Rightarrow>
             if chunks = 0 then Undefined
             else Returned
               \<lparr>out_buffer = memcpy (outbuf s) head_out (le_bytes 8 insize),
                outsize = data_out + carry s ! (chunks - 1)\<rparr>
         | Spinning c \<Rightarrow> Spinning c
         | Undefined \<Rightarrow> Undefined)"

section \<open>Reading the container\<close>

text \<open>
  The three regions of the output buffer, read back: the header \<^verbatim>\<open>head_out[0]\<close>, the
  entry \<^verbatim>\<open>size_out[chunkID]\<close> of the size table, and \<open>n\<close> bytes of the payload from
  \<^verbatim>\<open>&data_out[offs]\<close> on.
\<close>

definition header :: "buffer \<Rightarrow> nat" where
  "header buf = le_value (bytes_of buf 0 8)"

definition size_table :: "buffer \<Rightarrow> nat \<Rightarrow> nat" where
  "size_table buf chunkID = le_value (bytes_of buf (8 + 2 * chunkID) 2)"

definition payload :: "buffer \<Rightarrow> nat \<Rightarrow> nat \<Rightarrow> nat \<Rightarrow> byte list" where
  "payload buf chunks offs n = bytes_of buf (8 + 2 * chunks + offs) n"

text \<open>
  The offset at which an iteration stores its bytes, from the final carry array: the
  value \<^verbatim>\<open>offs\<close> of the loop body.
\<close>

definition chunk_offs :: "nat list \<Rightarrow> nat \<Rightarrow> nat" where
  "chunk_offs c chunkID = (if 0 < chunkID then c ! (chunkID - 1) else 0)"

text \<open>The bytes of chunk \<open>chunkID\<close> of the input, \<^verbatim>\<open>input[base .. base + osize)\<close>.\<close>

definition chunk_bytes :: "byte list \<Rightarrow> nat \<Rightarrow> byte list" where
  "chunk_bytes input chunkID =
     take (chunk_osize (length input) chunkID) (drop (chunk_base chunkID) input)"

text \<open>
  The test of the loop body, \<^verbatim>\<open>good && (csize < osize)\<close>, and the bytes the branch it
  selects copies into the payload.
\<close>

definition keeps_compressed :: "stage \<Rightarrow> byte list \<Rightarrow> nat \<Rightarrow> bool" where
  "keeps_compressed h_BIT_4 input chunkID =
     (let r = h_BIT_4 (chunk_bytes input chunkID)
      in good r \<and> csize r < int (chunk_osize (length input) chunkID))"

definition stored :: "stage \<Rightarrow> byte list \<Rightarrow> nat \<Rightarrow> byte list" where
  "stored h_BIT_4 input chunkID =
     (let r = h_BIT_4 (chunk_bytes input chunkID)
      in if keeps_compressed h_BIT_4 input chunkID
         then bytes_of (scratch_out r) 0 (nat (csize r))
         else chunk_bytes input chunkID)"

text \<open>
  Modelled from the spec: the contract of the compression stage \<^verbatim>\<open>h_BIT_4\<close>, whose
  code is not in the source file. Section 3 of the specification says that every chunk's
  stored size is strictly positive, a chunk being never empty. In the raw branch the stored
  size is the chunk's own size; in the compressed branch it is the size the stage reports.
  So on a chunk that is not empty the stage does not report success with a smaller size
  of \<open>0\<close> or less.
\<close>

definition positive_sizes :: "stage \<Rightarrow> bool" where
  "positive_sizes h_BIT_4 =
     (\<forall>c. c \<noteq> [] \<longrightarrow> good (h_BIT_4 c) \<longrightarrow> csize (h_BIT_4 c) < int (length c) \<longrightarrow>
          0 < csize (h_BIT_4 c))"

text \<open>
  The sum of the sizes of the bytes stored for the chunks before \<open>chunkID\<close>.
\<close>

definition stored_before :: "stage \<Rightarrow> byte list \<Rightarrow> nat \<Rightarrow> nat" where
  "stored_before h_BIT_4 input chunkID =
     sum_list (map (\<lambda>j. length (stored h_BIT_4 input j)) [0..<chunkID])"

text \<open>
  The payload offset of a chunk as a reader of the container finds it: the sum of the
  entries of the size table before it.
\<close>

definition payload_offset :: "buffer \<Rightarrow> nat \<Rightarrow> nat" where
  "payload_offset buf chunkID = sum_list (map (size_table buf) [0..<chunkID])"

section \<open>The decoder\<close>

text \<open>
  Modelled from the spec: the inverse operation of the compression stage, which the
  decoder invokes. It is not in the source file. It receives the stored bytes of a chunk
  and the original size of the chunk, and either recovers the chunk or fails.
\<close>

type_synonym stage_inverse = "byte list \<Rightarrow> nat \<Rightarrow> byte list option"

datatype decode_error = Corrupt_stream

text \<open>
  Modelled from the spec: the decoder's pass over the chunks (section 4.5); the source
  file holds the encoder only. For each \<open>chunkID\<close> in order: compute
  \<open>originalChunkSize = min (CS, originalSize - chunkID * CS)\<close>; read \<open>storedSize\<close> from the
  size table; if \<open>storedSize = originalChunkSize\<close> copy the stored bytes verbatim, otherwise
  invoke the inverse of the compression stage on the stored bytes to recover
  \<open>originalChunkSize\<close> bytes. A size table that refers to an impossible size and a failing
  inverse are fatal decode errors.
\<close>

fun decode_chunks ::
  "stage_inverse \<Rightarrow> nat \<Rightarrow> nat \<Rightarrow> nat list \<Rightarrow> byte list \<Rightarrow> decode_error + byte list" where
  "decode_chunks unstage originalSize chunkID [] rest = Inr []"
| "decode_chunks unstage originalSize chunkID (storedSize # sizes) rest =
     (let originalChunkSize = min CS (originalSize - chunkID * CS)
      in if originalChunkSize < storedSize \<or> length rest < storedSize then Inl Corrupt_stream
         else
           case (if storedSize = originalChunkSize then Some (take storedSize rest)
                 else unstage (take storedSize rest) originalChunkSize) of
             None \<Rightarrow> Inl Corrupt_stream
           | Some chunk \<Rightarrow>
               if length chunk \<noteq> originalChunkSize then Inl Corrupt_stream
               else
                 (case decode_chunks unstage originalSize (Suc chunkID) sizes
                         (drop storedSize rest) of
                    Inl e \<Rightarrow> Inl e
                  | Inr chunks_after \<Rightarrow> Inr (chunk @ chunks_after)))"

text \<open>
  Modelled from the spec: the decoder (sections 4.5 and 6); the source file holds the
  encoder only. The stream is \<open>originalSize\<close> in bytes \<open>0 .. 7\<close>, the size table with 16
  bits per chunk from byte 8 on, for \<open>chunks = ceil (originalSize / CS)\<close> chunks, and the
  payload from byte \<open>8 + 2 * chunks\<close> on; integers are little-endian, \<open>CS\<close> is the encoder's.
\<close>

definition decode :: "stage_inverse \<Rightarrow> byte list \<Rightarrow> decode_error + byte list" where
  "decode unstage stream =
     (if length stream < 8 then Inl Corrupt_stream
      else
        let originalSize = le_value (take 8 stream);
            chunks = chunk_count originalSize
        in if length stream < 8 + 2 * chunks then Inl Corrupt_stream
           else decode_chunks unstage originalSize 0
                  (map (\<lambda>chunkID. le_value (take 2 (drop (8 + 2 * chunkID) stream))) [0..<chunks])
                  (drop (8 + 2 * chunks) stream))"

text \<open>
  Modelled from the spec: the reciprocity of the stage and its inverse, which the decoder
  of section 4.5 relies on and which is not in the source file. Whenever the stage reports
  success on a chunk with a size that is smaller and not negative, the inverse recovers
  the chunk from the first \<open>csize\<close> bytes of the stage's output and the chunk's size.
\<close>

definition reciprocal :: "stage \<Rightarrow> stage_inverse \<Rightarrow> bool" where
  "reciprocal h_BIT_4 unstage =
     (\<forall>c. c \<noteq> [] \<longrightarrow> length c \<le> CS \<longrightarrow> good (h_BIT_4 c) \<longrightarrow>
          0 \<le> csize (h_BIT_4 c) \<longrightarrow> csize (h_BIT_4 c) < int (length c) \<longrightarrow>
          unstage (bytes_of (scratch_out (h_BIT_4 c)) 0 (nat (csize (h_BIT_4 c)))) (length c)
            = Some c)"

section \<open>The driver\<close>

text \<open>
  \<^verbatim>\<open>main\<close> reads a file, runs the quantizer on slices of it and writes a file. What it
  prints is a list of messages; it ends by returning a status, by throwing
  \<^verbatim>\<open>std::runtime_error("LC error")\<close>, which nothing catches, or in a call whose behaviour
  is undefined (a null \<^verbatim>\<open>FILE*\<close> handed to \<^verbatim>\<open>fseek\<close> or \<^verbatim>\<open>fwrite\<close>, an
  \<^verbatim>\<open>fwrite\<close> that reads past the end of its array).
\<close>

datatype message = Banner | Usage_line | Original_size nat | Input_too_small | Invalid_argument

datatype ending = Exit int | LC_error | Undefined_call

record outcome =
  messages :: "message list"
  ending :: ending
  written :: "(string \<times> byte list) option"

text \<open>
  The file system as \<^verbatim>\<open>main\<close> sees it: the contents of the files that
  \<^verbatim>\<open>fopen(name, "rb")\<close> can open, and the names that \<^verbatim>\<open>fopen(name, "wb")\<close> can open.
\<close>

record file_system =
  readable :: "string \<Rightarrow> byte list option"
  writable :: "string \<Rightarrow> bool"

text \<open>
  \<^verbatim>\<open>h_QUANT_IABS_0_f32(lc_data_size, lc_data, 1, paramv)\<close> is declared in
  \<^verbatim>\<open>preprocessors/h_QUANT_IABS_0_f32.h\<close>, which is not part of this source file; it is a
  parameter of \<^verbatim>\<open>main\<close>: from the bytes of a dataset to the contents of \<^verbatim>\<open>lc_data\<close>
  after the call.
\<close>

type_synonym quantizer = "byte list \<Rightarrow> buffer"

text \<open>
  \<^verbatim>\<open>
  unsigned int curr_word = lc_data_4[idx];
  double ref = 1.0f;
  unsigned long long ref_double = *reinterpret_cast<unsigned long long*>(&ref);
  ref_double = ref_double | ((unsigned long long) curr_word << 20);
  \<close>
  The bits of the double \<open>1.0\<close> are \<open>0x3FF0000000000000\<close>.
\<close>

definition lc_data_4 :: "buffer \<Rightarrow> nat \<Rightarrow> 32 word" where
  "lc_data_4 lc_data idx = word_of_nat (le_value (bytes_of lc_data (4 * idx) 4))"

definition ref_double :: "32 word \<Rightarrow> 64 word" where
  "ref_double curr_word = 0x3FF0000000000000 OR push_bit 20 (ucast curr_word)"

text \<open>
  The part of \<^verbatim>\<open>out_data\<close> that the loop body fills for dataset \<open>ds\<close>:
  \<^verbatim>\<open>
  long long lc_data_size = dataset_size * 4;
  std::copy(input + start_off, input + end_off, lc_data);
  h_QUANT_IABS_0_f32(lc_data_size, lc_data, 1, paramv);
  for (size_t idx = 0; idx < lc_data_4_size; idx++) { ... out_data[out_offset + idx] = out; }
  \<close>
\<close>

definition dataset :: "quantizer \<Rightarrow> byte list \<Rightarrow> nat \<Rightarrow> 64 word list" where
  "dataset h_QUANT_IABS_0_f32 input ds =
     (let dataset_size = 2207;
          lc_data_size = dataset_size * 4;
          start_off = ds * lc_data_size;
          lc_data = h_QUANT_IABS_0_f32 (take lc_data_size (drop start_off input));
          lc_data_4_size = lc_data_size div 4
      in map (\<lambda>idx. ref_double (lc_data_4 lc_data idx)) [0..<lc_data_4_size])"

text \<open>
  \<^verbatim>\<open>
  if (argc < 3) {printf("USAGE: ..."); return -1;}
  FILE* const fin = fopen(argv[1], "rb");
  fseek(fin, 0, SEEK_END);
  const long long fsize = ftell(fin);
  if (fsize <= 0) {fprintf(stderr, "ERROR: input file too small\n\n"); throw std::runtime_error("LC error");}
  const long long insize = fread(input, 1, fsize, fin);
  printf("original size: %lld bytes\n", insize);
  char* perf_str = argv[3];
  if (perf_str != nullptr && strcmp(perf_str, "y") == 0) { perf = true; }
  else if (perf_str != nullptr && strcmp(perf_str, "y") != 0) {
    fprintf(stderr, "ERROR: Invalid argument. Use 'y' or nothing.\n");
    throw std::runtime_error("LC error");
  }
  long long dataset_size = 2207;
  long long num_datasets = insize / 4 / dataset_size;
  long long outsize = num_datasets * dataset_size;
  double* const out_data = new double [outsize];
  for (size_t ds = 0; ds < num_datasets; ds++) { ... }
  FILE* const fout = fopen(argv[2], "wb");
  fwrite(out_data, 1, insize * 2, fout);
  return 0;
  \<close>
  \<^verbatim>\<open>argv\<close> is the list of the \<^verbatim>\<open>argc\<close> arguments, the program's name first;
  \<^verbatim>\<open>argv[argc]\<close> is the null pointer. The read returns the whole file
  (\<^verbatim>\<open>assert(insize == fsize)\<close> is compiled out by \<^verbatim>\<open>NDEBUG\<close>). The array \<^verbatim>\<open>out_data\<close>
  has \<open>8 * outsize\<close> bytes; \<^verbatim>\<open>fwrite\<close> is asked for \<open>insize * 2\<close> bytes of it.
\<close>

definition main :: "quantizer \<Rightarrow> file_system \<Rightarrow> string list \<Rightarrow> outcome" where
  "main h_QUANT_IABS_0_f32 fs argv =
     (let argc = length argv
      in if argc < 3
         then \<lparr>messages = [Banner, Usage_line], ending = Exit (- 1), written = None\<rparr>
         else
           case readable fs (argv ! 1) of
             None \<Rightarrow> \<lparr>messages = [Banner], ending = Undefined_call, written = None\<rparr>
           | Some input \<Rightarrow>
               let fsize = length input
               in if fsize \<le> 0
                  then \<lparr>messages = [Banner, Input_too_small], ending = LC_error, written = None\<rparr>
                  else
                    let insize = fsize
                    in if 3 < argc \<and> argv ! 3 \<noteq> ''y''
                       then \<lparr>messages = [Banner, Original_size insize, Invalid_argument],
                             ending = LC_error, written = None\<rparr>
                       else
                         let dataset_size = 2207;
                             num_datasets = insize div 4 div dataset_size;
                             outsize = num_datasets * dataset_size;
                             out_data = concat (map (dataset h_QUANT_IABS_0_f32 input)
                                          [0..<num_datasets]);
                             out_bytes = concat (map (\<lambda>d. le_bytes 8 (unat d)) out_data)
                         in if writable fs (argv ! 2) \<and> insize * 2 \<le> 8 * outsize
                            then \<lparr>messages = [Banner, Original_size insize],
                                  ending = Exit 0,
                                  written = Some (argv ! 2, take (insize * 2) out_bytes)\<rparr>
                            else \<lparr>messages = [Banner, Original_size insize],
                                  ending = Undefined_call, written = None\<rparr>)"

text \<open>
  Sample runs of \<^verbatim>\<open>main\<close>: a quantizer that leaves the data as it is, and a file system
  with an empty file, a file of one byte and a file of \<open>8828\<close> bytes; no other file can
  be opened for reading, every file for writing.
\<close>

definition quant_keeps :: quantizer where
  "quant_keeps bs = (\<lambda>i. if i < length bs then bs ! i else 0)"

definition sample_files :: file_system where
  "sample_files = \<lparr>readable = (\<lambda>name.
       if name = ''empty.bin'' then Some []
       else if name = ''one.bin'' then Some [7]
       else if name = ''dataset.bin'' then Some (replicate 8828 0)
       else None),
     writable = (\<lambda>name. True)\<rparr>"

section \<open>Notions for the proofs\<close>

text \<open>Both branches of the loop body store \<open>stored\<close> and its length.\<close>

definition chunk_write :: "stage \<Rightarrow> byte list \<Rightarrow> nat \<Rightarrow> enc_state \<Rightarrow> enc_state" where
  "chunk_write h_BIT_4 input chunkID s =
     \<lparr>carry = (carry s)[chunkID := chunk_offs (carry s) chunkID + length (stored h_BIT_4 input chunkID)],
      outbuf = memcpy
        (memcpy (outbuf s) (8 + 2 * chunkID) (le_bytes 2 (length (stored h_BIT_4 input chunkID))))
        (8 + 2 * chunk_count (length input) + chunk_offs (carry s) chunkID)
        (stored h_BIT_4 input chunkID)\<rparr>"

text \<open>
  The invariant of the loop after the iterations \<open>0 .. k - 1\<close>: the size table and the
  payload hold what these chunks store, back to back, and the carry slots hold the running
  sums.
\<close>

definition laid_out :: "stage \<Rightarrow> byte list \<Rightarrow> nat \<Rightarrow> buffer \<Rightarrow> bool" where
  "laid_out h_BIT_4 input k buf \<longleftrightarrow>
     (\<forall>j<k. bytes_of buf (8 + 2 * j) 2 = le_bytes 2 (length (stored h_BIT_4 input j))) \<and>
     (\<forall>j<k. payload buf (chunk_count (length input)) (stored_before h_BIT_4 input j)
               (length (stored h_BIT_4 input j)) = stored h_BIT_4 input j)"

definition packed :: "stage \<Rightarrow> byte list \<Rightarrow> nat \<Rightarrow> enc_state \<Rightarrow> bool" where
  "packed h_BIT_4 input k s \<longleftrightarrow>
     length (carry s) = chunk_count (length input) \<and>
     (\<forall>j<k. carry s ! j = stored_before h_BIT_4 input (Suc j)) \<and>
     laid_out h_BIT_4 input k (outbuf s)"

text \<open>
  Iteration \<open>j\<close> goes through when its stage result has no negative size in the
  compressed branch and, for \<open>j > 0\<close>, the bytes stored before it are not none at all.
\<close>

definition passes :: "stage \<Rightarrow> byte list \<Rightarrow> nat \<Rightarrow> bool" where
  "passes h_BIT_4 input j \<longleftrightarrow>
     \<not> (keeps_compressed h_BIT_4 input j \<and> csize (h_BIT_4 (chunk_bytes input j)) < 0) \<and>
     (0 < j \<longrightarrow> stored_before h_BIT_4 input j \<noteq> 0)"

section \<open>Sample stages\<close>

text \<open>
  Four stages to run the encoder on. The first always reports failure, after overwriting
  both scratch arrays. The second keeps every other byte and so halves a chunk (a chunk of
  one byte keeps its size). The third reports success with no bytes at all, the fourth
  does so on the chunks that start with the byte \<open>1\<close> and fails on the others; these two
  lie outside the contract \<open>positive_sizes\<close> and show what it is needed for.
\<close>

definition stage_fails :: stage where
  "stage_fails c = \<lparr>good = False, csize = int (length c),
     scratch_in = (\<lambda>i. 0), scratch_out = (\<lambda>i. 255)\<rparr>"

definition stage_halves :: stage where
  "stage_halves c = \<lparr>good = True, csize = int ((length c + 1) div 2),
     scratch_in = (\<lambda>i. 0), scratch_out = (\<lambda>i. c ! (2 * i))\<rparr>"

definition stage_empties :: stage where
  "stage_empties c = \<lparr>good = True, csize = 0,
     scratch_in = (\<lambda>i. 0), scratch_out = (\<lambda>i. 0)\<rparr>"

definition stage_empties_ones :: stage where
  "stage_empties_ones c = \<lparr>good = (take 1 c = [1]), csize = 0,
     scratch_in = (\<lambda>i. 0), scratch_out = (\<lambda>i. 0)\<rparr>"

text \<open>
  A stage with an inverse: a chunk of two or more equal bytes is stored as that one byte;
  on every other chunk the stage fails.
\<close>

definition stage_runs :: stage where
  "stage_runs c = \<lparr>good = (1 < length c \<and> c = replicate (length c) (c ! 0)),
     csize = (if 1 < length c \<and> c = replicate (length c) (c ! 0) then 1 else int (length c)),
     scratch_in = (\<lambda>i. 0), scratch_out = (\<lambda>i. c ! 0)\<rparr>"

definition unstage_runs :: stage_inverse where
  "unstage_runs bs n = (case bs of [b] \<Rightarrow> Some (replicate n b) | _ \<Rightarrow> None)"

text \<open>
  Sample inputs: two bytes, and three chunks of which the second consists of the byte
  \<open>1\<close> and the third is one byte long. The output buffer starts out as zeros.
\<close>

definition two_bytes :: "byte list" where
  "two_bytes = [5, 7]"

definition three_chunks :: "byte list" where
  "three_chunks = replicate CS 0 @ replicate CS 1 @ [9]"

definition zero_buffer :: buffer where
  "zero_buffer = (\<lambda>i. 0)"

text \<open>
  The carry array a run of the loop leaves, if it returns, and the offsets at which its
  iterations stored their bytes.
\<close>

definition published :: "enc_state run \<Rightarrow> nat list option" where
  "published x = (case x of Returned s \<Rightarrow> Some (carry s) | Spinning c \<Rightarrow> None | Undefined \<Rightarrow> None)"

definition offsets :: "enc_state run \<Rightarrow> nat list option" where
  "offsets x = (case x of
       Returned s \<Rightarrow> Some (map (chunk_offs (carry s)) [0..<length (carry s)])
     | Spinning c \<Rightarrow> None
     | Undefined \<Rightarrow> None)"

section \<open>Facts about the chunk planner\<close>

lemma CS_pos: "0 < CS"
  by (simp add: CS_def)

lemma chunk_count_pos: "0 < insize \<Longrightarrow> 0 < chunk_count insize"
  unfolding chunk_count_def using CS_pos
  by (simp add: div_greater_zero_iff)

lemma chunk_count_upper: "insize \<le> chunk_count insize * CS"
proof -
  have "insize + CS - 1 < ((insize + CS - 1) div CS + 1) * CS"
    using CS_pos dividend_less_div_times[of CS "insize + CS - 1"] by (simp add: algebra_simps)
  then show ?thesis
    using CS_pos by (simp add: chunk_count_def)
qed

lemma chunk_count_lower: "0 < insize \<Longrightarrow> (chunk_count insize - 1) * CS < insize"
proof -
  assume pos: "0 < insize"
  have "chunk_count insize * CS \<le> insize + CS - 1"
    unfolding chunk_count_def by (rule div_times_less_eq_dividend)
  then have "chunk_count insize * CS < insize + CS"
    using pos by linarith
  moreover have "chunk_count insize * CS = (chunk_count insize - 1) * CS + CS"
    using chunk_count_pos [OF pos] by (simp add: diff_mult_distrib)
  ultimately show ?thesis by linarith
qed

lemma chunk_base_less: "chunkID < chunk_count insize \<Longrightarrow> chunk_base chunkID < insize"
proof -
  assume lt: "chunkID < chunk_count insize"
  then have pos: "0 < insize"
    using CS_pos by (cases "insize = 0") (simp_all add: chunk_count_def)
  from lt have "chunkID \<le> chunk_count insize - 1" by simp
  then have "chunkID * CS \<le> (chunk_count insize - 1) * CS"
    by (rule mult_le_mono1)
  with chunk_count_lower [OF pos] show ?thesis
    unfolding chunk_base_def by linarith
qed

lemma chunk_osize_pos: "chunkID < chunk_count insize \<Longrightarrow> 0 < chunk_osize insize chunkID"
  using chunk_base_less [of chunkID insize] CS_pos by (simp add: chunk_osize_def)

lemma chunk_osize_le_CS: "chunk_osize insize chunkID \<le> CS"
  by (simp add: chunk_osize_def)

lemma chunk_end: "chunkID < chunk_count insize \<Longrightarrow>
  chunk_base chunkID + chunk_osize insize chunkID = min ((chunkID + 1) * CS) insize"
  using chunk_base_less [of chunkID insize]
  unfolding chunk_osize_def chunk_base_def min_def by (simp add: algebra_simps) linarith

lemma chunk_osize_full: "Suc chunkID < chunk_count insize \<Longrightarrow> chunk_osize insize chunkID = CS"
proof -
  assume "Suc chunkID < chunk_count insize"
  then have "chunk_base (Suc chunkID) < insize" by (rule chunk_base_less)
  then show ?thesis by (simp add: chunk_osize_def chunk_base_def)
qed

lemma chunk_osize_last:
  "0 < insize \<Longrightarrow> chunk_osize insize (chunk_count insize - 1) = insize - (chunk_count insize - 1) * CS"
proof -
  assume pos: "0 < insize"
  have "insize \<le> (chunk_count insize - 1) * CS + CS"
    using chunk_count_upper [of insize] chunk_count_pos [OF pos]
    by (simp add: diff_mult_distrib)
  then show ?thesis by (simp add: chunk_osize_def chunk_base_def)
qed

lemma chunk_count_ceiling:
  assumes "0 < insize"
  shows "int (chunk_count insize) = \<lceil>real insize / real CS\<rceil>"
proof -
  let ?q = "chunk_count insize"
  have "insize \<le> ?q * CS"
    by (rule chunk_count_upper)
  then have "real insize \<le> real (?q * CS)"
    by (simp only: of_nat_le_iff)
  then have up: "real insize / real CS \<le> real ?q"
    using CS_pos by (simp add: pos_divide_le_eq)
  have "(?q - 1) * CS < insize"
    using assms by (rule chunk_count_lower)
  then have "real ((?q - 1) * CS) < real insize"
    by (simp only: of_nat_less_iff)
  moreover have "real (?q - 1) = real ?q - 1"
    using chunk_count_pos [OF assms] by (simp add: of_nat_diff)
  ultimately have lo: "real ?q - 1 < real insize / real CS"
    using CS_pos by (simp add: pos_less_divide_eq)
  have "\<lceil>real insize / real CS\<rceil> = int ?q"
    by (rule ceiling_unique) (use lo up in simp_all)
  then show ?thesis by simp
qed

text \<open>
  Claim C5. For every \<open>insize > 0\<close> the encoder splits the input into
  \<open>chunks = ceil (insize / CS)\<close> chunks; chunk \<open>chunkID\<close> covers the byte range from
  \<open>chunkID * CS\<close> up to (excluding) \<open>min ((chunkID + 1) * CS) insize\<close>; and the size of the
  last chunk is \<open>insize - (chunks - 1) * CS\<close>.
\<close>

theorem chunk_plan:
  assumes "0 < insize"
  shows "int (chunk_count insize) = \<lceil>real insize / real CS\<rceil> \<and>
    (\<forall>chunkID < chunk_count insize.
       chunk_base chunkID = chunkID * CS \<and>
       chunk_base chunkID + chunk_osize insize chunkID = min ((chunkID + 1) * CS) insize) \<and>
    chunk_osize insize (chunk_count insize - 1) = insize - (chunk_count insize - 1) * CS"
proof (intro conjI)
  show "int (chunk_count insize) = \<lceil>real insize / real CS\<rceil>"
    using assms by (rule chunk_count_ceiling)
  show "\<forall>chunkID < chunk_count insize.
           chunk_base chunkID = chunkID * CS \<and>
           chunk_base chunkID + chunk_osize insize chunkID = min ((chunkID + 1) * CS) insize"
    using chunk_end by (simp add: chunk_base_def)
  show "chunk_osize insize (chunk_count insize - 1) = insize - (chunk_count insize - 1) * CS"
    using assms by (rule chunk_osize_last)
qed

text \<open>
  The instance \<open>insize = 2 * CS + 10\<close>: three chunks, the last one of 10 bytes starting at
  byte 32768.
\<close>

theorem chunk_plan_witness:
  "0 < (32778::nat) \<and> chunk_count 32778 = 3 \<and>
   int (chunk_count 32778) = \<lceil>real 32778 / real CS\<rceil> \<and>
   chunk_base 2 = 2 * CS \<and> chunk_base 2 + chunk_osize 32778 2 = min ((2 + 1) * CS) 32778 \<and>
   chunk_osize 32778 (chunk_count 32778 - 1) = 32778 - (chunk_count 32778 - 1) * CS \<and>
   chunk_osize 32778 2 = 10"
proof -
  have pos: "0 < (32778::nat)"
    by simp
  have c: "chunk_count 32778 = 3"
    by (simp add: chunk_count_def CS_def)
  have ten: "chunk_osize 32778 2 = 10"
    by (simp add: chunk_osize_def chunk_base_def CS_def)
  note plan = chunk_plan [OF pos]
  from plan have "\<forall>chunkID < chunk_count 32778.
       chunk_base chunkID = chunkID * CS \<and>
       chunk_base chunkID + chunk_osize 32778 chunkID = min ((chunkID + 1) * CS) 32778"
    by (rule conjunct1 [OF conjunct2])
  moreover have "2 < chunk_count 32778"
    using c by simp
  ultimately have two: "chunk_base 2 = 2 * CS \<and>
       chunk_base 2 + chunk_osize 32778 2 = min ((2 + 1) * CS) 32778"
    by blast
  from plan have "int (chunk_count 32778) = \<lceil>real 32778 / real CS\<rceil>"
    by (rule conjunct1)
  moreover from plan have
    "chunk_osize 32778 (chunk_count 32778 - 1) = 32778 - (chunk_count 32778 - 1) * CS"
    by (rule conjunct2 [OF conjunct2])
  ultimately show ?thesis
    using pos c ten two by blast
qed

section \<open>Facts about buffers\<close>

lemma length_bytes_of [simp]: "length (bytes_of buf a n) = n"
  by (simp add: bytes_of_def)

lemma nth_bytes_of [simp]: "i < n \<Longrightarrow> bytes_of buf a n ! i = buf (a + i)"
  by (simp add: bytes_of_def)

lemma bytes_of_add: "bytes_of buf a (m + n) = bytes_of buf a m @ bytes_of buf (a + m) n"
  by (rule nth_equalityI) (auto simp: nth_append)

lemma memcpy_inside: "a \<le> i \<Longrightarrow> i < a + length src \<Longrightarrow> memcpy dst a src i = src ! (i - a)"
  by (simp add: memcpy_def)

lemma memcpy_outside: "i < a \<or> a + length src \<le> i \<Longrightarrow> memcpy dst a src i = dst i"
  by (auto simp: memcpy_def)

lemma bytes_of_memcpy_same: "n = length src \<Longrightarrow> bytes_of (memcpy dst a src) a n = src"
  by (rule nth_equalityI) (simp_all add: memcpy_inside)

lemma bytes_of_memcpy_other:
  "b + n \<le> a \<or> a + length src \<le> b \<Longrightarrow> bytes_of (memcpy dst a src) b n = bytes_of dst b n"
  by (rule nth_equalityI) (auto simp: memcpy_outside)

lemma length_le_bytes [simp]: "length (le_bytes n x) = n"
  by (induction n arbitrary: x) simp_all

lemma le_bytes_numeral:
  "le_bytes (numeral k) x = word_of_nat (x mod 256) # le_bytes (pred_numeral k) (x div 256)"
proof -
  have "le_bytes (numeral k) x = le_bytes (Suc (pred_numeral k)) x"
    by (simp only: numeral_eq_Suc)
  then show ?thesis
    by (simp only: le_bytes.simps)
qed

lemma le_value_le_bytes: "le_value (le_bytes n x) = x mod 256 ^ n"
proof (induction n arbitrary: x)
  case 0
  show ?case by simp
next
  case (Suc n)
  have "unat (word_of_nat (x mod 256) :: byte) = x mod 256"
    by (simp add: unat_of_nat)
  then have "le_value (le_bytes (Suc n) x) = x mod 256 + 256 * (x div 256 mod 256 ^ n)"
    by (simp add: Suc.IH)
  also have "\<dots> = x mod 256 ^ Suc n"
    by (simp add: mod_mult2_eq)
  finally show ?case .
qed

lemma le_value_le_bytes_small: "x < 256 ^ n \<Longrightarrow> le_value (le_bytes n x) = x"
  by (simp add: le_value_le_bytes)


section \<open>Facts about what a chunk stores\<close>

lemma length_chunk_bytes:
  "length (chunk_bytes input chunkID) = chunk_osize (length input) chunkID"
  by (simp add: chunk_bytes_def chunk_osize_def)

lemma chunk_bytes_nonempty:
  "chunkID < chunk_count (length input) \<Longrightarrow> chunk_bytes input chunkID \<noteq> []"
  using length_chunk_bytes [of input chunkID] chunk_osize_pos [of chunkID "length input"]
  by auto

lemma stored_compressed:
  "keeps_compressed h_BIT_4 input chunkID \<Longrightarrow>
   stored h_BIT_4 input chunkID =
     bytes_of (scratch_out (h_BIT_4 (chunk_bytes input chunkID))) 0
       (nat (csize (h_BIT_4 (chunk_bytes input chunkID))))"
  by (simp add: stored_def Let_def)

lemma stored_raw:
  "\<not> keeps_compressed h_BIT_4 input chunkID \<Longrightarrow>
   stored h_BIT_4 input chunkID = chunk_bytes input chunkID"
  by (simp add: stored_def Let_def)

lemma length_stored_compressed:
  "keeps_compressed h_BIT_4 input chunkID \<Longrightarrow>
   length (stored h_BIT_4 input chunkID) = nat (csize (h_BIT_4 (chunk_bytes input chunkID)))"
  by (simp add: stored_compressed)

lemma length_stored_raw:
  "\<not> keeps_compressed h_BIT_4 input chunkID \<Longrightarrow>
   length (stored h_BIT_4 input chunkID) = chunk_osize (length input) chunkID"
  by (simp add: stored_raw length_chunk_bytes)

lemma length_stored_le:
  assumes "chunkID < chunk_count (length input)"
  shows "length (stored h_BIT_4 input chunkID) \<le> chunk_osize (length input) chunkID"
proof (cases "keeps_compressed h_BIT_4 input chunkID")
  case True
  then have "csize (h_BIT_4 (chunk_bytes input chunkID)) < int (chunk_osize (length input) chunkID)"
    by (simp add: keeps_compressed_def Let_def)
  then show ?thesis
    using True by (simp add: length_stored_compressed)
next
  case False
  then show ?thesis
    using assms by (simp add: length_stored_raw)
qed

lemma length_stored_less_iff:
  assumes "chunkID < chunk_count (length input)"
  shows "length (stored h_BIT_4 input chunkID) < chunk_osize (length input) chunkID
         \<longleftrightarrow> keeps_compressed h_BIT_4 input chunkID"
proof (cases "keeps_compressed h_BIT_4 input chunkID")
  case True
  then have "csize (h_BIT_4 (chunk_bytes input chunkID)) < int (chunk_osize (length input) chunkID)"
    by (simp add: keeps_compressed_def Let_def)
  moreover have "0 < chunk_osize (length input) chunkID"
    using assms by (rule chunk_osize_pos)
  ultimately show ?thesis
    using True by (simp add: length_stored_compressed)
next
  case False
  then show ?thesis
    using assms by (simp add: length_stored_raw)
qed

lemma length_stored_pos:
  assumes "positive_sizes h_BIT_4" and "chunkID < chunk_count (length input)"
  shows "0 < length (stored h_BIT_4 input chunkID)"
proof (cases "keeps_compressed h_BIT_4 input chunkID")
  case True
  let ?c = "chunk_bytes input chunkID"
  from True have "good (h_BIT_4 ?c)" and "csize (h_BIT_4 ?c) < int (length ?c)"
    using assms(2) by (simp_all add: keeps_compressed_def Let_def length_chunk_bytes)
  moreover have "?c \<noteq> []"
    using assms(2) by (rule chunk_bytes_nonempty)
  ultimately have "0 < csize (h_BIT_4 ?c)"
    using assms(1) by (simp add: positive_sizes_def)
  then show ?thesis
    using True by (simp add: length_stored_compressed)
next
  case False
  then show ?thesis
    using assms(2) by (simp add: length_stored_raw chunk_osize_pos)
qed

lemma stored_before_0 [simp]: "stored_before h_BIT_4 input 0 = 0"
  by (simp add: stored_before_def)

lemma stored_before_Suc:
  "stored_before h_BIT_4 input (Suc chunkID) =
   stored_before h_BIT_4 input chunkID + length (stored h_BIT_4 input chunkID)"
  by (simp add: stored_before_def)

lemma stored_before_mono:
  "i \<le> j \<Longrightarrow> stored_before h_BIT_4 input i \<le> stored_before h_BIT_4 input j"
  by (induction j) (auto simp: stored_before_Suc le_Suc_eq)

lemma stored_before_end_le:
  "i < j \<Longrightarrow> stored_before h_BIT_4 input i + length (stored h_BIT_4 input i)
     \<le> stored_before h_BIT_4 input j"
  using stored_before_mono [of "Suc i" j h_BIT_4 input] by (simp add: stored_before_Suc)

section \<open>One iteration\<close>

lemma encode_chunk_eq:
  "encode_chunk h_BIT_4 input chunkID s =
    (if 0 < chunkID \<and> carry s ! (chunkID - 1) = 0 then Spinning chunkID
     else if keeps_compressed h_BIT_4 input chunkID \<and> csize (h_BIT_4 (chunk_bytes input chunkID)) < 0
     then Undefined
     else Returned (chunk_write h_BIT_4 input chunkID s))"
proof -
  let ?r = "h_BIT_4 (chunk_bytes input chunkID)"
  let ?osize = "chunk_osize (length input) chunkID"
  have unfolded: "encode_chunk h_BIT_4 input chunkID s =
    (if 0 < chunkID \<and> carry s ! (chunkID - 1) = 0 then Spinning chunkID
     else if good ?r \<and> csize ?r < int ?osize
       then if csize ?r < 0 then Undefined
            else Returned
              \<lparr>carry = (carry s)[chunkID := chunk_offs (carry s) chunkID + nat (csize ?r)],
               outbuf = memcpy
                 (memcpy (outbuf s) (8 + 2 * chunkID) (le_bytes 2 (nat (csize ?r))))
                 (8 + 2 * chunk_count (length input) + chunk_offs (carry s) chunkID)
                 (bytes_of (scratch_out ?r) 0 (nat (csize ?r)))\<rparr>
       else Returned
              \<lparr>carry = (carry s)[chunkID := chunk_offs (carry s) chunkID + ?osize],
               outbuf = memcpy
                 (memcpy (outbuf s) (8 + 2 * chunkID) (le_bytes 2 ?osize))
                 (8 + 2 * chunk_count (length input) + chunk_offs (carry s) chunkID)
                 (chunk_bytes input chunkID)\<rparr>)"
    by (simp only: encode_chunk_def Let_def chunk_bytes_def chunk_offs_def)
  show ?thesis
  proof (cases "keeps_compressed h_BIT_4 input chunkID")
    case True
    then have g: "(good ?r \<and> csize ?r < int ?osize) = True"
      by (simp add: keeps_compressed_def Let_def)
    have k: "keeps_compressed h_BIT_4 input chunkID = True"
      using True by simp
    have st: "stored h_BIT_4 input chunkID = bytes_of (scratch_out ?r) 0 (nat (csize ?r))"
      using True by (rule stored_compressed)
    show ?thesis
      by (simp only: unfolded chunk_write_def g k st length_bytes_of if_True simp_thms)
  next
    case False
    then have g: "(good ?r \<and> csize ?r < int ?osize) = False"
      by (simp add: keeps_compressed_def Let_def)
    have k: "keeps_compressed h_BIT_4 input chunkID = False"
      using False by simp
    have st: "stored h_BIT_4 input chunkID = chunk_bytes input chunkID"
      using False by (rule stored_raw)
    show ?thesis
      by (simp only: unfolded chunk_write_def g k st length_chunk_bytes if_False simp_thms)
  qed
qed

lemma encode_chunks_snoc:
  "encode_chunks h_BIT_4 input (ids @ [chunkID]) s =
     (case encode_chunks h_BIT_4 input ids s of
        Returned s' \<Rightarrow> encode_chunk h_BIT_4 input chunkID s'
      | Spinning c \<Rightarrow> Spinning c
      | Undefined \<Rightarrow> Undefined)"
  by (induction ids arbitrary: s) (auto split: run.splits)



section \<open>The loop invariant\<close>

lemma packed_0:
  "packed h_BIT_4 input 0 \<lparr>carry = replicate (chunk_count (length input)) 0, outbuf = output0\<rparr>"
  by (simp add: packed_def laid_out_def)

lemma packed_offs:
  assumes "packed h_BIT_4 input k s"
  shows "chunk_offs (carry s) k = stored_before h_BIT_4 input k"
proof (cases k)
  case 0
  then show ?thesis by (simp add: chunk_offs_def)
next
  case (Suc j)
  then have "carry s ! j = stored_before h_BIT_4 input (Suc j)"
    using assms by (simp add: packed_def)
  then show ?thesis
    using Suc by (simp add: chunk_offs_def)
qed

lemma packed_pred:
  "packed h_BIT_4 input k s \<Longrightarrow> 0 < k \<Longrightarrow> carry s ! (k - 1) = stored_before h_BIT_4 input k"
  using packed_offs [of h_BIT_4 input k s] by (simp add: chunk_offs_def)

lemma packed_step:
  assumes inv: "packed h_BIT_4 input k s" and k: "k < chunk_count (length input)"
  shows "packed h_BIT_4 input (Suc k) (chunk_write h_BIT_4 input k s)"
proof -
  let ?n = "chunk_count (length input)"
  let ?st = "\<lambda>j. stored h_BIT_4 input j"
  let ?sb = "\<lambda>j. stored_before h_BIT_4 input j"
  let ?mid = "memcpy (outbuf s) (8 + 2 * k) (le_bytes 2 (length (?st k)))"
  let ?s' = "chunk_write h_BIT_4 input k s"
  have offs: "chunk_offs (carry s) k = ?sb k"
    using inv by (rule packed_offs)
  have len: "length (carry s) = ?n"
    using inv by (simp add: packed_def)
  have carry': "carry ?s' = (carry s)[k := ?sb (Suc k)]"
    by (simp add: chunk_write_def offs stored_before_Suc)
  have out': "outbuf ?s' = memcpy ?mid (8 + 2 * ?n + ?sb k) (?st k)"
    by (simp add: chunk_write_def offs)
  have c: "carry ?s' ! j = ?sb (Suc j)" if "j < Suc k" for j
  proof (cases "j = k")
    case True
    then show ?thesis using k len by (simp add: carry')
  next
    case False
    with that have "j < k" by simp
    then have "carry s ! j = ?sb (Suc j)"
      using inv by (simp add: packed_def)
    then show ?thesis using False by (simp add: carry')
  qed
  have t: "bytes_of (outbuf ?s') (8 + 2 * j) 2 = le_bytes 2 (length (?st j))" if "j < Suc k" for j
  proof -
    from that k have "8 + 2 * j + 2 \<le> 8 + 2 * ?n + ?sb k"
      by simp
    then have outer: "bytes_of (outbuf ?s') (8 + 2 * j) 2 = bytes_of ?mid (8 + 2 * j) 2"
      unfolding out' by (intro bytes_of_memcpy_other) simp
    show ?thesis
    proof (cases "j = k")
      case True
      then show ?thesis
        using outer by (simp add: bytes_of_memcpy_same)
    next
      case False
      with that have jk: "j < k" by simp
      then have "bytes_of ?mid (8 + 2 * j) 2 = bytes_of (outbuf s) (8 + 2 * j) 2"
        by (intro bytes_of_memcpy_other) simp
      moreover have "bytes_of (outbuf s) (8 + 2 * j) 2 = le_bytes 2 (length (?st j))"
        using inv jk by (simp add: packed_def laid_out_def)
      ultimately show ?thesis
        by (simp add: outer)
    qed
  qed
  have p: "payload (outbuf ?s') ?n (?sb j) (length (?st j)) = ?st j" if "j < Suc k" for j
  proof (cases "j = k")
    case True
    then show ?thesis
      by (simp add: payload_def out' bytes_of_memcpy_same)
  next
    case False
    with that have jk: "j < k" by simp
    then have "?sb j + length (?st j) \<le> ?sb k"
      by (rule stored_before_end_le)
    then have "bytes_of (outbuf ?s') (8 + 2 * ?n + ?sb j) (length (?st j))
        = bytes_of ?mid (8 + 2 * ?n + ?sb j) (length (?st j))"
      unfolding out' by (intro bytes_of_memcpy_other) simp
    also have "\<dots> = bytes_of (outbuf s) (8 + 2 * ?n + ?sb j) (length (?st j))"
      using k by (intro bytes_of_memcpy_other) simp
    also have "\<dots> = ?st j"
      using inv jk by (simp add: packed_def laid_out_def payload_def)
    finally show ?thesis
      by (simp add: payload_def)
  qed
  have "length (carry ?s') = ?n"
    by (simp add: carry' len)
  with c t p show ?thesis
    unfolding packed_def laid_out_def by blast
qed

lemma encode_chunks_packed:
  assumes "k \<le> chunk_count (length input)"
    and "encode_chunks h_BIT_4 input [0..<k]
           \<lparr>carry = replicate (chunk_count (length input)) 0, outbuf = output0\<rparr> = Returned s"
  shows "packed h_BIT_4 input k s"
  using assms
proof (induction k arbitrary: s)
  case 0
  then show ?case
    using packed_0 [of h_BIT_4 input output0] by simp
next
  case (Suc k)
  let ?s0 = "\<lparr>carry = replicate (chunk_count (length input)) 0, outbuf = output0\<rparr>"
  from Suc.prems(2) obtain s1 where
    s1: "encode_chunks h_BIT_4 input [0..<k] ?s0 = Returned s1" and
    s: "encode_chunk h_BIT_4 input k s1 = Returned s"
    by (auto simp: encode_chunks_snoc split: run.splits)
  from Suc.prems(1) have k: "k < chunk_count (length input)"
    by simp
  then have "packed h_BIT_4 input k s1"
    using Suc.IH s1 by simp
  then have "packed h_BIT_4 input (Suc k) (chunk_write h_BIT_4 input k s1)"
    using k by (rule packed_step)
  moreover have "s = chunk_write h_BIT_4 input k s1"
    using s by (simp add: encode_chunk_eq split: if_splits)
  ultimately show ?case
    by simp
qed


section \<open>When the loop returns\<close>

lemma encode_chunks_returns:
  assumes "k \<le> chunk_count (length input)" and "\<forall>j<k. passes h_BIT_4 input j"
  shows "\<exists>s. encode_chunks h_BIT_4 input [0..<k]
           \<lparr>carry = replicate (chunk_count (length input)) 0, outbuf = output0\<rparr> = Returned s"
  using assms
proof (induction k)
  case 0
  show ?case by simp
next
  case (Suc k)
  let ?s0 = "\<lparr>carry = replicate (chunk_count (length input)) 0, outbuf = output0\<rparr>"
  from Suc obtain s1 where s1: "encode_chunks h_BIT_4 input [0..<k] ?s0 = Returned s1"
    by auto
  from Suc.prems(1) have "k \<le> chunk_count (length input)"
    by simp
  then have inv: "packed h_BIT_4 input k s1"
    using s1 by (rule encode_chunks_packed)
  have pass: "passes h_BIT_4 input k"
    using Suc.prems(2) by simp
  have "\<not> (0 < k \<and> carry s1 ! (k - 1) = 0)"
  proof
    assume a: "0 < k \<and> carry s1 ! (k - 1) = 0"
    then have "stored_before h_BIT_4 input k = 0"
      using packed_pred [OF inv] by simp
    moreover have "stored_before h_BIT_4 input k \<noteq> 0"
      using pass a by (simp add: passes_def)
    ultimately show False by simp
  qed
  then have "encode_chunk h_BIT_4 input k s1 = Returned (chunk_write h_BIT_4 input k s1)"
    using pass by (simp add: encode_chunk_eq passes_def)
  then show ?case
    using s1 by (simp add: encode_chunks_snoc)
qed

lemma encode_chunks_passes:
  assumes "k \<le> chunk_count (length input)"
    and "encode_chunks h_BIT_4 input [0..<k]
           \<lparr>carry = replicate (chunk_count (length input)) 0, outbuf = output0\<rparr> = Returned s"
    and "j < k"
  shows "passes h_BIT_4 input j"
  using assms
proof (induction k arbitrary: s)
  case 0
  then show ?case by simp
next
  case (Suc k)
  let ?s0 = "\<lparr>carry = replicate (chunk_count (length input)) 0, outbuf = output0\<rparr>"
  from Suc.prems(2) obtain s1 where
    s1: "encode_chunks h_BIT_4 input [0..<k] ?s0 = Returned s1" and
    s: "encode_chunk h_BIT_4 input k s1 = Returned s"
    by (auto simp: encode_chunks_snoc split: run.splits)
  from Suc.prems(1) have k: "k \<le> chunk_count (length input)"
    by simp
  show ?case
  proof (cases "j = k")
    case True
    have inv: "packed h_BIT_4 input k s1"
      using k s1 by (rule encode_chunks_packed)
    from s have spin: "\<not> (0 < k \<and> carry s1 ! (k - 1) = 0)"
      and neg: "\<not> (keeps_compressed h_BIT_4 input k \<and> csize (h_BIT_4 (chunk_bytes input k)) < 0)"
      by (simp_all add: encode_chunk_eq split: if_splits)
    have "stored_before h_BIT_4 input k \<noteq> 0" if "0 < k"
      using spin that packed_pred [OF inv] by simp
    with neg show ?thesis
      unfolding passes_def True by blast
  next
    case False
    then have "j < k" using Suc.prems(3) by simp
    then show ?thesis
      using Suc.IH k s1 by simp
  qed
qed

lemma positive_sizes_passes:
  assumes "positive_sizes h_BIT_4" and "j < chunk_count (length input)"
  shows "passes h_BIT_4 input j"
proof -
  have "0 < length (stored h_BIT_4 input i)" if "i < chunk_count (length input)" for i
    using assms(1) that by (rule length_stored_pos)
  have neg: "\<not> (keeps_compressed h_BIT_4 input j \<and> csize (h_BIT_4 (chunk_bytes input j)) < 0)"
  proof
    assume a: "keeps_compressed h_BIT_4 input j \<and> csize (h_BIT_4 (chunk_bytes input j)) < 0"
    then have "length (stored h_BIT_4 input j) = 0"
      by (simp add: length_stored_compressed)
    moreover have "0 < length (stored h_BIT_4 input j)"
      using assms by (rule length_stored_pos)
    ultimately show False by simp
  qed
  have "stored_before h_BIT_4 input j \<noteq> 0" if "0 < j"
  proof -
    from that obtain i where i: "j = Suc i"
      by (cases j) simp_all
    then have "i < chunk_count (length input)"
      using assms(2) by simp
    then have "0 < length (stored h_BIT_4 input i)"
      using assms(1) by (intro length_stored_pos)
    then show ?thesis
      by (simp add: i stored_before_Suc)
  qed
  with neg show ?thesis
    by (simp add: passes_def)
qed


section \<open>The result of the encoder\<close>

lemma encode_loop_packed:
  "encode_loop h_BIT_4 input output0 = Returned s \<Longrightarrow>
   packed h_BIT_4 input (chunk_count (length input)) s"
  using encode_chunks_packed [of "chunk_count (length input)" input h_BIT_4 output0 s]
  by (simp add: encode_loop_def Let_def)

lemma encode_loop_returns:
  "\<forall>j < chunk_count (length input). passes h_BIT_4 input j \<Longrightarrow>
   \<exists>s. encode_loop h_BIT_4 input output0 = Returned s"
  using encode_chunks_returns [of "chunk_count (length input)" input h_BIT_4 output0]
  by (simp add: encode_loop_def Let_def)

lemma encode_loop_passes:
  "encode_loop h_BIT_4 input output0 = Returned s \<Longrightarrow> j < chunk_count (length input) \<Longrightarrow>
   passes h_BIT_4 input j"
  using encode_chunks_passes [of "chunk_count (length input)" input h_BIT_4 output0 s j]
  by (simp add: encode_loop_def Let_def)

lemma h_encode_Returned_iff:
  "h_encode h_BIT_4 input output0 = Returned r \<longleftrightarrow>
   (\<exists>s. encode_loop h_BIT_4 input output0 = Returned s \<and> input \<noteq> [] \<and>
        r = \<lparr>out_buffer = memcpy (outbuf s) 0 (le_bytes 8 (length input)),
             outsize = 8 + 2 * chunk_count (length input)
                         + carry s ! (chunk_count (length input) - 1)\<rparr>)"
proof -
  have "chunk_count (length input) = 0 \<longleftrightarrow> input = []"
  proof (cases "input = []")
    case True
    then show ?thesis by (simp add: chunk_count_def CS_def)
  next
    case False
    then show ?thesis using chunk_count_pos [of "length input"] by simp
  qed
  then show ?thesis
    by (auto simp: h_encode_def Let_def split: run.splits)
qed

lemma h_encode_returns:
  assumes "input \<noteq> []" and "positive_sizes h_BIT_4"
  shows "\<exists>r. h_encode h_BIT_4 input output0 = Returned r"
proof -
  have "\<forall>j < chunk_count (length input). passes h_BIT_4 input j"
    using assms(2) by (simp add: positive_sizes_passes)
  then obtain s where "encode_loop h_BIT_4 input output0 = Returned s"
    using encode_loop_returns by blast
  then show ?thesis
    using assms(1) by (simp add: h_encode_Returned_iff)
qed

text \<open>
  The encoder returns exactly when the input is not empty and every iteration goes
  through.
\<close>

lemma h_encode_returns_iff:
  "(\<exists>r. h_encode h_BIT_4 input output0 = Returned r) \<longleftrightarrow>
   input \<noteq> [] \<and> (\<forall>j < chunk_count (length input). passes h_BIT_4 input j)"
proof
  assume "\<exists>r. h_encode h_BIT_4 input output0 = Returned r"
  then obtain s where "encode_loop h_BIT_4 input output0 = Returned s" and "input \<noteq> []"
    by (auto simp: h_encode_Returned_iff)
  then show "input \<noteq> [] \<and> (\<forall>j < chunk_count (length input). passes h_BIT_4 input j)"
    by (simp add: encode_loop_passes)
next
  assume a: "input \<noteq> [] \<and> (\<forall>j < chunk_count (length input). passes h_BIT_4 input j)"
  then obtain s where "encode_loop h_BIT_4 input output0 = Returned s"
    using encode_loop_returns by blast
  then show "\<exists>r. h_encode h_BIT_4 input output0 = Returned r"
    using a by (simp add: h_encode_Returned_iff)
qed

section \<open>The layout of the output buffer\<close>

lemma length_stored_small:
  "j < chunk_count (length input) \<Longrightarrow> length (stored h_BIT_4 input j) < 65536"
  using length_stored_le [of j input h_BIT_4] chunk_osize_le_CS [of "length input" j]
  by (simp add: CS_def)

lemma laid_out_size_table:
  assumes "laid_out h_BIT_4 input k buf" and "j < k" and "j < chunk_count (length input)"
  shows "size_table buf j = length (stored h_BIT_4 input j)"
proof -
  have "bytes_of buf (8 + 2 * j) 2 = le_bytes 2 (length (stored h_BIT_4 input j))"
    using assms(1,2) by (simp add: laid_out_def)
  then have "size_table buf j = length (stored h_BIT_4 input j) mod 256 ^ 2"
    by (simp only: size_table_def le_value_le_bytes)
  then show ?thesis
    using length_stored_small [OF assms(3), of h_BIT_4] by simp
qed

lemma laid_out_payload:
  assumes "laid_out h_BIT_4 input k buf" and "j < k"
  shows "payload buf (chunk_count (length input)) (stored_before h_BIT_4 input j)
           (length (stored h_BIT_4 input j)) = stored h_BIT_4 input j"
  using assms by (simp add: laid_out_def)

lemma laid_out_payload_offset:
  assumes "laid_out h_BIT_4 input k buf" and "j \<le> k" and "j \<le> chunk_count (length input)"
  shows "payload_offset buf j = stored_before h_BIT_4 input j"
  using assms(2,3)
proof (induction j)
  case 0
  show ?case by (simp add: payload_offset_def)
next
  case (Suc j)
  then have "size_table buf j = length (stored h_BIT_4 input j)"
    using assms(1) by (intro laid_out_size_table [of h_BIT_4 input k]) simp_all
  moreover have "payload_offset buf j = stored_before h_BIT_4 input j"
    using Suc by simp
  ultimately show ?case
    by (simp add: payload_offset_def stored_before_Suc)
qed

lemma laid_out_header:
  assumes "laid_out h_BIT_4 input k buf"
  shows "laid_out h_BIT_4 input k (memcpy buf 0 (le_bytes 8 x))"
proof -
  have "bytes_of (memcpy buf 0 (le_bytes 8 x)) a n = bytes_of buf a n" if "8 \<le> a" for a n
    using that by (intro bytes_of_memcpy_other) simp
  then show ?thesis
    using assms by (simp add: laid_out_def payload_def)
qed

lemma header_written: "x < 2 ^ 64 \<Longrightarrow> header (memcpy buf 0 (le_bytes 8 x)) = x"
proof -
  assume "x < 2 ^ 64"
  then have "x mod 256 ^ 8 = x" by simp
  then show ?thesis
    by (simp only: header_def bytes_of_memcpy_same length_le_bytes le_value_le_bytes)
qed

lemma laid_out_table_bytes:
  assumes "laid_out h_BIT_4 input k buf"
  shows "bytes_of buf 8 (2 * k)
         = concat (map (\<lambda>j. le_bytes 2 (length (stored h_BIT_4 input j))) [0..<k])"
  using assms
proof (induction k)
  case 0
  show ?case by (simp add: bytes_of_def)
next
  case (Suc k)
  then have "laid_out h_BIT_4 input k buf"
    by (simp add: laid_out_def)
  then have "bytes_of buf 8 (2 * k)
      = concat (map (\<lambda>j. le_bytes 2 (length (stored h_BIT_4 input j))) [0..<k])"
    by (rule Suc.IH)
  moreover have "bytes_of buf (8 + 2 * k) 2 = le_bytes 2 (length (stored h_BIT_4 input k))"
    using Suc.prems by (simp add: laid_out_def)
  moreover have "bytes_of buf 8 (2 * Suc k) = bytes_of buf 8 (2 * k) @ bytes_of buf (8 + 2 * k) 2"
    using bytes_of_add [of buf 8 "2 * k" 2] by simp
  ultimately show ?case
    by simp
qed

lemma laid_out_payload_bytes:
  assumes "laid_out h_BIT_4 input k buf"
  shows "bytes_of buf (8 + 2 * chunk_count (length input)) (stored_before h_BIT_4 input k)
         = concat (map (stored h_BIT_4 input) [0..<k])"
  using assms
proof (induction k)
  case 0
  show ?case by (simp add: bytes_of_def)
next
  case (Suc k)
  let ?d = "8 + 2 * chunk_count (length input)"
  from Suc.prems have "laid_out h_BIT_4 input k buf"
    by (simp add: laid_out_def)
  then have "bytes_of buf ?d (stored_before h_BIT_4 input k)
      = concat (map (stored h_BIT_4 input) [0..<k])"
    by (rule Suc.IH)
  moreover have "bytes_of buf (?d + stored_before h_BIT_4 input k)
      (length (stored h_BIT_4 input k)) = stored h_BIT_4 input k"
    using Suc.prems by (simp add: laid_out_def payload_def)
  ultimately show ?case
    by (simp add: stored_before_Suc bytes_of_add)
qed


lemma h_encode_layout:
  assumes "h_encode h_BIT_4 input output0 = Returned r"
  shows "laid_out h_BIT_4 input (chunk_count (length input)) (out_buffer r)"
    and "outsize r = 8 + 2 * chunk_count (length input)
           + stored_before h_BIT_4 input (chunk_count (length input))"
    and "bytes_of (out_buffer r) 0 8 = le_bytes 8 (length input)"
    and "input \<noteq> []"
proof -
  let ?n = "chunk_count (length input)"
  from assms obtain s where
    s: "encode_loop h_BIT_4 input output0 = Returned s" and ne: "input \<noteq> []" and
    r: "r = \<lparr>out_buffer = memcpy (outbuf s) 0 (le_bytes 8 (length input)),
             outsize = 8 + 2 * ?n + carry s ! (?n - 1)\<rparr>"
    by (auto simp: h_encode_Returned_iff)
  have inv: "packed h_BIT_4 input ?n s"
    using s by (rule encode_loop_packed)
  then have "laid_out h_BIT_4 input ?n (outbuf s)"
    by (simp add: packed_def)
  then show "laid_out h_BIT_4 input ?n (out_buffer r)"
    by (simp add: r laid_out_header)
  have "0 < ?n"
    using ne by (simp add: chunk_count_pos)
  then have "carry s ! (?n - 1) = stored_before h_BIT_4 input ?n"
    using inv by (intro packed_pred)
  then show "outsize r = 8 + 2 * ?n + stored_before h_BIT_4 input ?n"
    by (simp add: r)
  show "bytes_of (out_buffer r) 0 8 = le_bytes 8 (length input)"
    by (simp add: r bytes_of_memcpy_same)
  show "input \<noteq> []" by (rule ne)
qed

lemma h_encode_passes:
  assumes "h_encode h_BIT_4 input output0 = Returned r" and "j < chunk_count (length input)"
  shows "passes h_BIT_4 input j"
proof -
  from assms(1) obtain s where "encode_loop h_BIT_4 input output0 = Returned s"
    by (auto simp: h_encode_Returned_iff)
  then show ?thesis
    using assms(2) by (rule encode_loop_passes)
qed

lemma h_encode_size_table:
  assumes "h_encode h_BIT_4 input output0 = Returned r" and "j < chunk_count (length input)"
  shows "size_table (out_buffer r) j = length (stored h_BIT_4 input j)"
  using h_encode_layout(1) [OF assms(1)] assms(2) assms(2) by (rule laid_out_size_table)

lemma h_encode_payload_offset:
  assumes "h_encode h_BIT_4 input output0 = Returned r" and "j \<le> chunk_count (length input)"
  shows "payload_offset (out_buffer r) j = stored_before h_BIT_4 input j"
  using h_encode_layout(1) [OF assms(1)] assms(2) assms(2) by (rule laid_out_payload_offset)

lemma h_encode_payload:
  assumes "h_encode h_BIT_4 input output0 = Returned r" and "j < chunk_count (length input)"
  shows "payload (out_buffer r) (chunk_count (length input)) (payload_offset (out_buffer r) j)
           (length (stored h_BIT_4 input j)) = stored h_BIT_4 input j"
proof -
  have "payload_offset (out_buffer r) j = stored_before h_BIT_4 input j"
    using assms by (intro h_encode_payload_offset) simp_all
  then show ?thesis
    using laid_out_payload [OF h_encode_layout(1) [OF assms(1)] assms(2)] by simp
qed

section \<open>Non-expansion\<close>

text \<open>
  Claim C2. For every input that is not empty and every chunk, the size recorded in the
  size table is at most the original size of the chunk, \<open>min CS (insize - chunkID * CS)\<close>.
  The encoder returns for every stage whose successful smaller results are not empty, and
  whenever it returns the bound holds.
\<close>

theorem stored_size_le_original:
  assumes "input \<noteq> []"
  shows "(positive_sizes h_BIT_4 \<longrightarrow> (\<exists>r. h_encode h_BIT_4 input output0 = Returned r)) \<and>
    (\<forall>r chunkID. h_encode h_BIT_4 input output0 = Returned r \<longrightarrow>
       chunkID < chunk_count (length input) \<longrightarrow>
       size_table (out_buffer r) chunkID \<le> min CS (length input - chunkID * CS))"
proof (intro conjI allI impI)
  assume "positive_sizes h_BIT_4"
  with assms show "\<exists>r. h_encode h_BIT_4 input output0 = Returned r"
    by (rule h_encode_returns)
next
  fix r chunkID
  assume r: "h_encode h_BIT_4 input output0 = Returned r"
    and c: "chunkID < chunk_count (length input)"
  have "size_table (out_buffer r) chunkID = length (stored h_BIT_4 input chunkID)"
    using r c by (rule h_encode_size_table)
  also have "\<dots> \<le> chunk_osize (length input) chunkID"
    using c by (rule length_stored_le)
  finally show "size_table (out_buffer r) chunkID \<le> min CS (length input - chunkID * CS)"
    by (simp add: chunk_osize_def chunk_base_def)
qed

lemma positive_sizes_halves: "positive_sizes stage_halves"
  by (auto simp: positive_sizes_def stage_halves_def)

lemma positive_sizes_fails: "positive_sizes stage_fails"
  by (simp add: positive_sizes_def stage_fails_def)

lemma chunk_count_small: "0 < n \<Longrightarrow> n \<le> CS \<Longrightarrow> chunk_count n = 1"
  by (simp add: chunk_count_def CS_def)

section \<open>The sample runs\<close>

lemma chunk_bytes_two: "chunk_bytes two_bytes 0 = two_bytes"
  by (simp add: chunk_bytes_def chunk_osize_def chunk_base_def two_bytes_def CS_def)

lemma chunk_count_two: "chunk_count (length two_bytes) = 1"
  by (simp add: chunk_count_small two_bytes_def CS_def)

lemma keeps_two: "keeps_compressed stage_halves two_bytes 0"
  unfolding keeps_compressed_def Let_def chunk_bytes_two
  by (simp add: stage_halves_def chunk_osize_def chunk_base_def two_bytes_def CS_def)

lemma stored_two: "stored stage_halves two_bytes 0 = [5]"
proof -
  have "stored stage_halves two_bytes 0 = bytes_of (\<lambda>i. two_bytes ! (2 * i)) 0 (Suc 0)"
    unfolding stored_compressed [OF keeps_two] chunk_bytes_two
    by (simp add: stage_halves_def two_bytes_def)
  then show ?thesis
    by (simp add: bytes_of_def two_bytes_def)
qed

lemma length_three: "length three_chunks = 2 * CS + 1"
  by (simp add: three_chunks_def)

lemma chunk_count_three: "chunk_count (length three_chunks) = 3"
proof -
  have "2 * CS + 1 + CS - 1 = 3 * CS"
    by arith
  then have "chunk_count (length three_chunks) = (3 * CS) div CS"
    by (simp only: chunk_count_def length_three)
  then show ?thesis
    using CS_pos by simp
qed

lemma upt_3: "[0..<3] = [0, Suc 0, Suc (Suc 0)]"
  by (simp add: upt_rec)

lemma chunk_bytes_three:
  "chunk_bytes three_chunks 0 = replicate CS 0"
  "chunk_bytes three_chunks (Suc 0) = replicate CS 1"
  "chunk_bytes three_chunks (Suc (Suc 0)) = [9]"
proof -
  have "Suc 0 \<le> CS"
    using CS_pos by simp
  then show "chunk_bytes three_chunks 0 = replicate CS 0"
    and "chunk_bytes three_chunks (Suc 0) = replicate CS 1"
    and "chunk_bytes three_chunks (Suc (Suc 0)) = [9]"
    by (simp_all add: chunk_bytes_def chunk_osize_def chunk_base_def three_chunks_def)
qed

lemma take_1_replicate_CS: "take 1 (replicate CS x) = [x]"
  using CS_pos by (cases CS) simp_all


lemma positive_sizes_runs: "positive_sizes stage_runs"
  by (simp add: positive_sizes_def stage_runs_def)

lemma good_runs_replicate: "1 < n \<Longrightarrow> good (stage_runs (replicate n x))"
  by (simp add: stage_runs_def)

lemma keeps_three_runs:
  "keeps_compressed stage_runs three_chunks 0"
  "keeps_compressed stage_runs three_chunks (Suc 0)"
  "\<not> keeps_compressed stage_runs three_chunks (Suc (Suc 0))"
proof -
  have big: "1 < CS"
    by (simp add: CS_def)
  then have sizes: "csize (stage_runs (replicate CS x)) = 1" for x
    by (simp add: stage_runs_def)
  have osize: "chunk_osize (length three_chunks) 0 = CS"
    "chunk_osize (length three_chunks) (Suc 0) = CS"
    by (simp_all add: chunk_osize_def chunk_base_def length_three)
  show "keeps_compressed stage_runs three_chunks 0"
    and "keeps_compressed stage_runs three_chunks (Suc 0)"
    unfolding keeps_compressed_def Let_def chunk_bytes_three osize sizes
    using big by (simp_all add: good_runs_replicate)
  show "\<not> keeps_compressed stage_runs three_chunks (Suc (Suc 0))"
    unfolding keeps_compressed_def Let_def chunk_bytes_three
    by (simp add: stage_runs_def)
qed

lemma stored_three_runs:
  "stored stage_runs three_chunks 0 = [0]"
  "stored stage_runs three_chunks (Suc 0) = [1]"
  "stored stage_runs three_chunks (Suc (Suc 0)) = [9]"
proof -
  have big: "1 < CS"
    by (simp add: CS_def)
  then have out: "bytes_of (scratch_out (stage_runs (replicate CS x))) 0
      (nat (csize (stage_runs (replicate CS x)))) = [x]" for x
    by (simp add: stage_runs_def bytes_of_def)
  show "stored stage_runs three_chunks 0 = [0]"
    unfolding stored_compressed [OF keeps_three_runs(1)] chunk_bytes_three by (rule out)
  show "stored stage_runs three_chunks (Suc 0) = [1]"
    unfolding stored_compressed [OF keeps_three_runs(2)] chunk_bytes_three by (rule out)
  show "stored stage_runs three_chunks (Suc (Suc 0)) = [9]"
    unfolding stored_raw [OF keeps_three_runs(3)] by (rule chunk_bytes_three)
qed

text \<open>Two bytes and the halving stage: one chunk, stored in one byte.\<close>

theorem stored_size_le_original_witness:
  "two_bytes \<noteq> [] \<and> positive_sizes stage_halves \<and>
   (\<exists>r. h_encode stage_halves two_bytes zero_buffer = Returned r \<and>
        0 < chunk_count (length two_bytes) \<and>
        size_table (out_buffer r) 0 = 1 \<and>
        size_table (out_buffer r) 0 \<le> min CS (length two_bytes - 0 * CS))"
proof -
  have ne: "two_bytes \<noteq> []"
    by (simp add: two_bytes_def)
  have c: "0 < chunk_count (length two_bytes)"
    by (simp add: chunk_count_two)
  note t = stored_size_le_original [OF ne, of stage_halves zero_buffer]
  from t positive_sizes_halves obtain r where
    r: "h_encode stage_halves two_bytes zero_buffer = Returned r"
    by blast
  with t c have "size_table (out_buffer r) 0 \<le> min CS (length two_bytes - 0 * CS)"
    by blast
  moreover have "size_table (out_buffer r) 0 = 1"
    using h_encode_size_table [OF r c] by (simp add: stored_two)
  ultimately show ?thesis
    using ne c r positive_sizes_halves by blast
qed


section \<open>The fallback policy\<close>

text \<open>
  Claim C4. For every chunk the encoder keeps the compressed bytes and their size exactly
  when the stage reports success and the resulting size is strictly smaller than the
  original size of the chunk; in every other case (failure, equal size, larger size) it
  stores the original bytes with the original size. The encoder returns for every stage
  whose successful smaller results are not empty, and whenever it returns the size table
  and the payload hold what the policy says.
\<close>

theorem fallback_raw_policy:
  assumes "input \<noteq> []"
  shows "(positive_sizes h_BIT_4 \<longrightarrow> (\<exists>r. h_encode h_BIT_4 input output0 = Returned r)) \<and>
    (\<forall>r chunkID. h_encode h_BIT_4 input output0 = Returned r \<longrightarrow>
       chunkID < chunk_count (length input) \<longrightarrow>
       (let res = h_BIT_4 (chunk_bytes input chunkID);
            osize = chunk_osize (length input) chunkID;
            chunks = chunk_count (length input);
            offs = payload_offset (out_buffer r) chunkID
        in (if good res \<and> csize res < int osize
            then int (size_table (out_buffer r) chunkID) = csize res \<and>
                 payload (out_buffer r) chunks offs (nat (csize res))
                   = bytes_of (scratch_out res) 0 (nat (csize res))
            else size_table (out_buffer r) chunkID = osize \<and>
                 payload (out_buffer r) chunks offs osize = chunk_bytes input chunkID) \<and>
           (size_table (out_buffer r) chunkID < osize \<longleftrightarrow> good res \<and> csize res < int osize)))"
proof (intro conjI allI impI)
  assume "positive_sizes h_BIT_4"
  with assms show "\<exists>r. h_encode h_BIT_4 input output0 = Returned r"
    by (rule h_encode_returns)
next
  fix r chunkID
  assume r: "h_encode h_BIT_4 input output0 = Returned r"
    and c: "chunkID < chunk_count (length input)"
  let ?res = "h_BIT_4 (chunk_bytes input chunkID)"
  let ?osize = "chunk_osize (length input) chunkID"
  let ?offs = "payload_offset (out_buffer r) chunkID"
  let ?chunks = "chunk_count (length input)"
  have size: "size_table (out_buffer r) chunkID = length (stored h_BIT_4 input chunkID)"
    using r c by (rule h_encode_size_table)
  have bytes: "payload (out_buffer r) ?chunks ?offs (length (stored h_BIT_4 input chunkID))
      = stored h_BIT_4 input chunkID"
    using r c by (rule h_encode_payload)
  have test: "keeps_compressed h_BIT_4 input chunkID \<longleftrightarrow> good ?res \<and> csize ?res < int ?osize"
    by (simp add: keeps_compressed_def Let_def)
  have less: "size_table (out_buffer r) chunkID < ?osize \<longleftrightarrow> good ?res \<and> csize ?res < int ?osize"
    using length_stored_less_iff [OF c, of h_BIT_4] by (simp add: size test)
  have branch: "if good ?res \<and> csize ?res < int ?osize
      then int (size_table (out_buffer r) chunkID) = csize ?res \<and>
           payload (out_buffer r) ?chunks ?offs (nat (csize ?res))
             = bytes_of (scratch_out ?res) 0 (nat (csize ?res))
      else size_table (out_buffer r) chunkID = ?osize \<and>
           payload (out_buffer r) ?chunks ?offs ?osize = chunk_bytes input chunkID"
  proof (cases "keeps_compressed h_BIT_4 input chunkID")
    case True
    have "passes h_BIT_4 input chunkID"
      using r c by (rule h_encode_passes)
    then have nonneg: "0 \<le> csize ?res"
      using True by (simp add: passes_def)
    have "length (stored h_BIT_4 input chunkID) = nat (csize ?res)"
      using True by (rule length_stored_compressed)
    moreover have "stored h_BIT_4 input chunkID = bytes_of (scratch_out ?res) 0 (nat (csize ?res))"
      using True by (rule stored_compressed)
    ultimately show ?thesis
      using True nonneg size bytes test by simp
  next
    case False
    have "length (stored h_BIT_4 input chunkID) = ?osize"
      using False by (rule length_stored_raw)
    moreover have "stored h_BIT_4 input chunkID = chunk_bytes input chunkID"
      using False by (rule stored_raw)
    ultimately show ?thesis
      using False size bytes test by simp
  qed
  from branch less show "let res = h_BIT_4 (chunk_bytes input chunkID);
            osize = chunk_osize (length input) chunkID;
            chunks = chunk_count (length input);
            offs = payload_offset (out_buffer r) chunkID
        in (if good res \<and> csize res < int osize
            then int (size_table (out_buffer r) chunkID) = csize res \<and>
                 payload (out_buffer r) chunks offs (nat (csize res))
                   = bytes_of (scratch_out res) 0 (nat (csize res))
            else size_table (out_buffer r) chunkID = osize \<and>
                 payload (out_buffer r) chunks offs osize = chunk_bytes input chunkID) \<and>
           (size_table (out_buffer r) chunkID < osize \<longleftrightarrow> good res \<and> csize res < int osize)"
    unfolding Let_def by (rule conjI)
qed


lemma chunk_osize_two: "chunk_osize (length two_bytes) 0 = 2"
  by (simp add: chunk_osize_def chunk_base_def two_bytes_def CS_def)

lemma payload_offset_0: "payload_offset buf 0 = 0"
  by (simp add: payload_offset_def)

text \<open>
  Two bytes, once with the halving stage (the compressed byte is kept) and once with the
  stage that fails (the two bytes are stored as they are).
\<close>

theorem fallback_raw_policy_witness:
  "two_bytes \<noteq> [] \<and> positive_sizes stage_halves \<and> positive_sizes stage_fails \<and>
   0 < chunk_count (length two_bytes) \<and>
   (\<exists>r. h_encode stage_halves two_bytes zero_buffer = Returned r \<and>
        size_table (out_buffer r) 0 = 1 \<and> payload (out_buffer r) 1 0 1 = [5]) \<and>
   (\<exists>r. h_encode stage_fails two_bytes zero_buffer = Returned r \<and>
        size_table (out_buffer r) 0 = 2 \<and> payload (out_buffer r) 1 0 2 = [5, 7])"
proof -
  have ne: "two_bytes \<noteq> []"
    by (simp add: two_bytes_def)
  have c: "0 < chunk_count (length two_bytes)"
    by (simp add: chunk_count_two)
  note halves = fallback_raw_policy [OF ne, of stage_halves zero_buffer]
  from halves positive_sizes_halves obtain r where
    r: "h_encode stage_halves two_bytes zero_buffer = Returned r"
    by blast
  with halves c have "let res = stage_halves (chunk_bytes two_bytes 0);
            osize = chunk_osize (length two_bytes) 0;
            chunks = chunk_count (length two_bytes);
            offs = payload_offset (out_buffer r) 0
        in (if good res \<and> csize res < int osize
            then int (size_table (out_buffer r) 0) = csize res \<and>
                 payload (out_buffer r) chunks offs (nat (csize res))
                   = bytes_of (scratch_out res) 0 (nat (csize res))
            else size_table (out_buffer r) 0 = osize \<and>
                 payload (out_buffer r) chunks offs osize = chunk_bytes two_bytes 0) \<and>
           (size_table (out_buffer r) 0 < osize \<longleftrightarrow> good res \<and> csize res < int osize)"
    by blast
  then have "size_table (out_buffer r) 0 = 1 \<and> payload (out_buffer r) 1 0 1 = [5]"
    unfolding Let_def chunk_bytes_two chunk_count_two chunk_osize_two payload_offset_0
    by (simp add: stage_halves_def two_bytes_def bytes_of_def)
  with r have first: "\<exists>r. h_encode stage_halves two_bytes zero_buffer = Returned r \<and>
        size_table (out_buffer r) 0 = 1 \<and> payload (out_buffer r) 1 0 1 = [5]"
    by blast
  note fails = fallback_raw_policy [OF ne, of stage_fails zero_buffer]
  from fails positive_sizes_fails obtain q where
    q: "h_encode stage_fails two_bytes zero_buffer = Returned q"
    by blast
  with fails c have "let res = stage_fails (chunk_bytes two_bytes 0);
            osize = chunk_osize (length two_bytes) 0;
            chunks = chunk_count (length two_bytes);
            offs = payload_offset (out_buffer q) 0
        in (if good res \<and> csize res < int osize
            then int (size_table (out_buffer q) 0) = csize res \<and>
                 payload (out_buffer q) chunks offs (nat (csize res))
                   = bytes_of (scratch_out res) 0 (nat (csize res))
            else size_table (out_buffer q) 0 = osize \<and>
                 payload (out_buffer q) chunks offs osize = chunk_bytes two_bytes 0) \<and>
           (size_table (out_buffer q) 0 < osize \<longleftrightarrow> good res \<and> csize res < int osize)"
    by blast
  then have "size_table (out_buffer q) 0 = 2 \<and> payload (out_buffer q) 1 0 2 = [5, 7]"
    unfolding Let_def chunk_bytes_two chunk_count_two chunk_osize_two payload_offset_0
    by (simp add: stage_fails_def two_bytes_def)
  with q have second: "\<exists>r. h_encode stage_fails two_bytes zero_buffer = Returned r \<and>
        size_table (out_buffer r) 0 = 2 \<and> payload (out_buffer r) 1 0 2 = [5, 7]"
    by blast
  from ne c first second positive_sizes_halves positive_sizes_fails show ?thesis
    by blast
qed

section \<open>Raw chunks come from the input\<close>

text \<open>
  Claim C9. Whenever a chunk is stored raw, its bytes in the payload are the bytes of the
  input buffer at the chunk's byte range, whatever the stage left in the two scratch
  arrays. The encoder returns for every stage whose successful smaller results are not
  empty, and whenever it returns the raw chunks are the input's.
\<close>

theorem raw_chunk_is_input:
  assumes "input \<noteq> []"
  shows "(positive_sizes h_BIT_4 \<longrightarrow> (\<exists>r. h_encode h_BIT_4 input output0 = Returned r)) \<and>
    (\<forall>r chunkID i. h_encode h_BIT_4 input output0 = Returned r \<longrightarrow>
       chunkID < chunk_count (length input) \<longrightarrow>
       \<not> (good (h_BIT_4 (chunk_bytes input chunkID)) \<and>
          csize (h_BIT_4 (chunk_bytes input chunkID)) < int (chunk_osize (length input) chunkID)) \<longrightarrow>
       i < chunk_osize (length input) chunkID \<longrightarrow>
       out_buffer r (8 + 2 * chunk_count (length input) + payload_offset (out_buffer r) chunkID + i)
         = input ! (chunk_base chunkID + i))"
proof (intro conjI allI impI)
  assume "positive_sizes h_BIT_4"
  with assms show "\<exists>r. h_encode h_BIT_4 input output0 = Returned r"
    by (rule h_encode_returns)
next
  fix r chunkID i
  assume r: "h_encode h_BIT_4 input output0 = Returned r"
    and c: "chunkID < chunk_count (length input)"
    and raw: "\<not> (good (h_BIT_4 (chunk_bytes input chunkID)) \<and>
          csize (h_BIT_4 (chunk_bytes input chunkID)) < int (chunk_osize (length input) chunkID))"
    and i: "i < chunk_osize (length input) chunkID"
  let ?offs = "payload_offset (out_buffer r) chunkID"
  let ?d = "8 + 2 * chunk_count (length input)"
  from raw have nk: "\<not> keeps_compressed h_BIT_4 input chunkID"
    by (simp add: keeps_compressed_def Let_def)
  then have st: "stored h_BIT_4 input chunkID = chunk_bytes input chunkID"
    by (rule stored_raw)
  have "payload (out_buffer r) (chunk_count (length input)) ?offs
      (length (stored h_BIT_4 input chunkID)) = stored h_BIT_4 input chunkID"
    using r c by (rule h_encode_payload)
  then have "bytes_of (out_buffer r) (?d + ?offs) (chunk_osize (length input) chunkID)
      = chunk_bytes input chunkID"
    by (simp add: st payload_def length_chunk_bytes)
  then have "bytes_of (out_buffer r) (?d + ?offs) (chunk_osize (length input) chunkID) ! i
      = chunk_bytes input chunkID ! i"
    by simp
  moreover have "chunk_bytes input chunkID ! i = input ! (chunk_base chunkID + i)"
    using i chunk_base_less [OF c] by (simp add: chunk_bytes_def chunk_osize_def)
  ultimately show "out_buffer r (?d + ?offs + i) = input ! (chunk_base chunkID + i)"
    using i by simp
qed

text \<open>
  Two bytes and the stage that fails after filling its output array with the byte 255:
  the payload holds the two input bytes.
\<close>

theorem raw_chunk_is_input_witness:
  "two_bytes \<noteq> [] \<and> positive_sizes stage_fails \<and>
   0 < chunk_count (length two_bytes) \<and>
   \<not> (good (stage_fails (chunk_bytes two_bytes 0)) \<and>
      csize (stage_fails (chunk_bytes two_bytes 0)) < int (chunk_osize (length two_bytes) 0)) \<and>
   (1::nat) < chunk_osize (length two_bytes) 0 \<and>
   scratch_out (stage_fails (chunk_bytes two_bytes 0)) 1 = 255 \<and>
   (\<exists>r. h_encode stage_fails two_bytes zero_buffer = Returned r \<and>
        out_buffer r (8 + 2 * 1 + 0 + 1) = 7)"
proof -
  have ne: "two_bytes \<noteq> []"
    by (simp add: two_bytes_def)
  have c: "0 < chunk_count (length two_bytes)"
    by (simp add: chunk_count_two)
  have raw: "\<not> (good (stage_fails (chunk_bytes two_bytes 0)) \<and>
      csize (stage_fails (chunk_bytes two_bytes 0)) < int (chunk_osize (length two_bytes) 0))"
    by (simp add: stage_fails_def)
  have i: "(1::nat) < chunk_osize (length two_bytes) 0"
    by (simp add: chunk_osize_two)
  have scribbled: "scratch_out (stage_fails (chunk_bytes two_bytes 0)) 1 = 255"
    by (simp add: stage_fails_def)
  note t = raw_chunk_is_input [OF ne, of stage_fails zero_buffer]
  from t positive_sizes_fails obtain r where
    r: "h_encode stage_fails two_bytes zero_buffer = Returned r"
    by blast
  with t c raw i have "out_buffer r
      (8 + 2 * chunk_count (length two_bytes) + payload_offset (out_buffer r) 0 + 1)
      = two_bytes ! (chunk_base 0 + 1)"
    by blast
  then have "out_buffer r (8 + 2 * 1 + 0 + 1) = 7"
    unfolding chunk_count_two payload_offset_0
    by (simp add: chunk_base_def two_bytes_def)
  with ne c raw i scribbled r positive_sizes_fails show ?thesis
    by blast
qed


section \<open>The container\<close>

lemma h_encode_stream:
  assumes "h_encode h_BIT_4 input output0 = Returned r"
  shows "bytes_of (out_buffer r) 0 (outsize r)
     = le_bytes 8 (length input)
       @ concat (map (\<lambda>j. le_bytes 2 (length (stored h_BIT_4 input j)))
           [0..<chunk_count (length input)])
       @ concat (map (stored h_BIT_4 input) [0..<chunk_count (length input)])"
proof -
  let ?n = "chunk_count (length input)"
  let ?sb = "stored_before h_BIT_4 input ?n"
  note lay = h_encode_layout [OF assms]
  have "bytes_of (out_buffer r) 0 (outsize r) = bytes_of (out_buffer r) 0 (8 + (2 * ?n + ?sb))"
    by (simp only: lay(2) add.assoc)
  also have "\<dots> = bytes_of (out_buffer r) 0 8 @ bytes_of (out_buffer r) (0 + 8) (2 * ?n + ?sb)"
    by (rule bytes_of_add)
  also have "bytes_of (out_buffer r) (0 + 8) (2 * ?n + ?sb)
      = bytes_of (out_buffer r) 8 (2 * ?n) @ bytes_of (out_buffer r) (8 + 2 * ?n) ?sb"
    by (simp add: bytes_of_add)
  finally show ?thesis
    by (simp only: lay(3) laid_out_table_bytes [OF lay(1)] laid_out_payload_bytes [OF lay(1)])
qed

text \<open>
  Claim C6. For every input that is not empty, the \<open>outsize\<close> that \<open>h_encode\<close> reports is
  \<open>8 + 2 * chunks\<close> plus the sum of the stored sizes, and it is computed from the carry
  value of the last chunk; the first 8 bytes of the output hold \<open>insize\<close>; then comes the
  size table with 16 bits per chunk, entry \<open>chunkID\<close> holding the stored size of chunk
  \<open>chunkID\<close>; then the payload, the stored bytes of the chunks in the order of \<open>chunkID\<close>.
  The encoder returns for every stage whose successful smaller results are not empty.
\<close>

theorem container_layout:
  assumes "input \<noteq> []" and "length input < 2 ^ 63"
  shows "(positive_sizes h_BIT_4 \<longrightarrow> (\<exists>r. h_encode h_BIT_4 input output0 = Returned r)) \<and>
    (\<forall>r. h_encode h_BIT_4 input output0 = Returned r \<longrightarrow>
       (let chunks = chunk_count (length input); buf = out_buffer r
        in outsize r = 8 + 2 * chunks + sum_list (map (size_table buf) [0..<chunks]) \<and>
           (\<exists>s. encode_loop h_BIT_4 input output0 = Returned s \<and>
                outsize r = 8 + 2 * chunks + carry s ! (chunks - 1)) \<and>
           header buf = length input \<and>
           bytes_of buf 0 8 = le_bytes 8 (length input) \<and>
           (\<forall>chunkID < chunks.
              size_table buf chunkID = length (stored h_BIT_4 input chunkID) \<and>
              bytes_of buf (8 + 2 * chunkID) 2
                = le_bytes 2 (length (stored h_BIT_4 input chunkID)) \<and>
              payload buf chunks (payload_offset buf chunkID) (size_table buf chunkID)
                = stored h_BIT_4 input chunkID) \<and>
           bytes_of buf 0 (outsize r)
             = le_bytes 8 (length input)
               @ concat (map (\<lambda>chunkID. le_bytes 2 (length (stored h_BIT_4 input chunkID)))
                   [0..<chunks])
               @ concat (map (stored h_BIT_4 input) [0..<chunks])))"
proof (intro conjI allI impI)
  assume "positive_sizes h_BIT_4"
  with assms(1) show "\<exists>r. h_encode h_BIT_4 input output0 = Returned r"
    by (rule h_encode_returns)
next
  fix r
  assume r: "h_encode h_BIT_4 input output0 = Returned r"
  let ?n = "chunk_count (length input)"
  let ?buf = "out_buffer r"
  note lay = h_encode_layout [OF r]
  have table: "size_table ?buf j = length (stored h_BIT_4 input j)" if "j < ?n" for j
    using r that by (rule h_encode_size_table)
  have "sum_list (map (size_table ?buf) [0..<?n]) = payload_offset ?buf ?n"
    by (simp add: payload_offset_def)
  also have "\<dots> = stored_before h_BIT_4 input ?n"
    using r by (intro h_encode_payload_offset) simp_all
  finally have total: "outsize r = 8 + 2 * ?n + sum_list (map (size_table ?buf) [0..<?n])"
    by (simp add: lay(2))
  from r obtain s where s: "encode_loop h_BIT_4 input output0 = Returned s"
    and "r = \<lparr>out_buffer = memcpy (outbuf s) 0 (le_bytes 8 (length input)),
             outsize = 8 + 2 * ?n + carry s ! (?n - 1)\<rparr>"
    by (auto simp: h_encode_Returned_iff)
  then have last: "\<exists>s. encode_loop h_BIT_4 input output0 = Returned s \<and>
      outsize r = 8 + 2 * ?n + carry s ! (?n - 1)"
    by simp
  have "length input < 256 ^ 8"
    using assms(2) by simp
  then have head: "header ?buf = length input"
    by (simp only: header_def lay(3) le_value_le_bytes_small)
  have first8: "bytes_of ?buf 0 8 = le_bytes 8 (length input)"
    by (rule lay(3))
  have entries: "\<forall>chunkID < ?n.
      size_table ?buf chunkID = length (stored h_BIT_4 input chunkID) \<and>
      bytes_of ?buf (8 + 2 * chunkID) 2 = le_bytes 2 (length (stored h_BIT_4 input chunkID)) \<and>
      payload ?buf ?n (payload_offset ?buf chunkID) (size_table ?buf chunkID)
        = stored h_BIT_4 input chunkID"
  proof (intro allI impI conjI)
    fix chunkID
    assume c: "chunkID < ?n"
    show "size_table ?buf chunkID = length (stored h_BIT_4 input chunkID)"
      using c by (rule table)
    show "bytes_of ?buf (8 + 2 * chunkID) 2 = le_bytes 2 (length (stored h_BIT_4 input chunkID))"
      using lay(1) c by (simp add: laid_out_def)
    show "payload ?buf ?n (payload_offset ?buf chunkID) (size_table ?buf chunkID)
        = stored h_BIT_4 input chunkID"
      using h_encode_payload [OF r c] by (simp only: table [OF c])
  qed
  have stream: "bytes_of ?buf 0 (outsize r)
      = le_bytes 8 (length input)
        @ concat (map (\<lambda>chunkID. le_bytes 2 (length (stored h_BIT_4 input chunkID))) [0..<?n])
        @ concat (map (stored h_BIT_4 input) [0..<?n])"
    by (rule h_encode_stream [OF r])
  show "let chunks = chunk_count (length input); buf = out_buffer r
        in outsize r = 8 + 2 * chunks + sum_list (map (size_table buf) [0..<chunks]) \<and>
           (\<exists>s. encode_loop h_BIT_4 input output0 = Returned s \<and>
                outsize r = 8 + 2 * chunks + carry s ! (chunks - 1)) \<and>
           header buf = length input \<and>
           bytes_of buf 0 8 = le_bytes 8 (length input) \<and>
           (\<forall>chunkID < chunks.
              size_table buf chunkID = length (stored h_BIT_4 input chunkID) \<and>
              bytes_of buf (8 + 2 * chunkID) 2
                = le_bytes 2 (length (stored h_BIT_4 input chunkID)) \<and>
              payload buf chunks (payload_offset buf chunkID) (size_table buf chunkID)
                = stored h_BIT_4 input chunkID) \<and>
           bytes_of buf 0 (outsize r)
             = le_bytes 8 (length input)
               @ concat (map (\<lambda>chunkID. le_bytes 2 (length (stored h_BIT_4 input chunkID)))
                   [0..<chunks])
               @ concat (map (stored h_BIT_4 input) [0..<chunks])"
    unfolding Let_def by (intro conjI total last head first8 entries stream)
qed

text \<open>
  Three chunks and the run-length stage: 17 bytes, the header \<open>32769\<close>, the table entries
  \<open>1, 1, 1\<close> and the payload \<open>0, 1, 9\<close>, the second chunk's byte at payload offset 1.
\<close>

theorem container_layout_witness:
  "three_chunks \<noteq> [] \<and> length three_chunks < 2 ^ 63 \<and> positive_sizes stage_runs \<and>
   Suc 0 < chunk_count (length three_chunks) \<and>
   (\<exists>r. h_encode stage_runs three_chunks zero_buffer = Returned r \<and>
        outsize r = 17 \<and> header (out_buffer r) = 32769 \<and>
        size_table (out_buffer r) (Suc 0) = 1 \<and>
        payload (out_buffer r) 3 (payload_offset (out_buffer r) (Suc 0)) 1 = [1] \<and>
        bytes_of (out_buffer r) 0 (outsize r)
          = [1, 128, 0, 0, 0, 0, 0, 0, 1, 0, 1, 0, 1, 0, 0, 1, 9])"
proof -
  have ne: "three_chunks \<noteq> []"
    by (simp add: three_chunks_def)
  have small: "length three_chunks < 2 ^ 63"
    by (simp add: length_three CS_def)
  have c: "Suc 0 < chunk_count (length three_chunks)"
    by (simp add: chunk_count_three)
  note t = container_layout [OF ne small, of stage_runs zero_buffer]
  from t positive_sizes_runs obtain r where
    r: "h_encode stage_runs three_chunks zero_buffer = Returned r"
    by blast
  let ?buf = "out_buffer r"
  note layout = conjunct2 [OF t, rule_format, OF r, unfolded Let_def chunk_count_three]
  from layout have entries: "\<forall>chunkID < 3.
      size_table ?buf chunkID = length (stored stage_runs three_chunks chunkID) \<and>
      bytes_of ?buf (8 + 2 * chunkID) 2
        = le_bytes 2 (length (stored stage_runs three_chunks chunkID)) \<and>
      payload ?buf 3 (payload_offset ?buf chunkID) (size_table ?buf chunkID)
        = stored stage_runs three_chunks chunkID"
    by (elim conjE)
  have in_range: "(0::nat) < 3" "Suc 0 < 3" "Suc (Suc 0) < 3"
    by simp_all
  have sizes: "size_table ?buf 0 = 1" "size_table ?buf (Suc 0) = 1"
    "size_table ?buf (Suc (Suc 0)) = 1"
    using entries [rule_format, OF in_range(1)] entries [rule_format, OF in_range(2)]
      entries [rule_format, OF in_range(3)]
    by (simp_all add: stored_three_runs)
  have "payload ?buf 3 (payload_offset ?buf (Suc 0)) (size_table ?buf (Suc 0))
      = stored stage_runs three_chunks (Suc 0)"
    using entries [rule_format, OF in_range(2)] by (elim conjE)
  then have second: "payload ?buf 3 (payload_offset ?buf (Suc 0)) 1 = [1]"
    by (simp add: sizes stored_three_runs)
  have "outsize r = 8 + 2 * 3 + sum_list (map (size_table ?buf) [0..<3])"
    using layout by (elim conjE)
  then have total: "outsize r = 17"
    by (simp add: upt_3 sizes)
  have "header ?buf = length three_chunks"
    using layout by (elim conjE)
  then have head: "header ?buf = 32769"
    by (simp add: length_three CS_def)
  have "bytes_of ?buf 0 (outsize r)
      = le_bytes 8 (length three_chunks)
        @ concat (map (\<lambda>chunkID. le_bytes 2 (length (stored stage_runs three_chunks chunkID)))
            [0..<3])
        @ concat (map (stored stage_runs three_chunks) [0..<3])"
    using layout by (elim conjE)
  then have "bytes_of ?buf 0 (outsize r) = [1, 128, 0, 0, 0, 0, 0, 0, 1, 0, 1, 0, 1, 0, 0, 1, 9]"
    by (simp add: upt_3 stored_three_runs length_three CS_def le_bytes_numeral)
  with r total head sizes(2) second have
    "\<exists>r. h_encode stage_runs three_chunks zero_buffer = Returned r \<and>
        outsize r = 17 \<and> header (out_buffer r) = 32769 \<and>
        size_table (out_buffer r) (Suc 0) = 1 \<and>
        payload (out_buffer r) 3 (payload_offset (out_buffer r) (Suc 0)) 1 = [1] \<and>
        bytes_of (out_buffer r) 0 (outsize r)
          = [1, 128, 0, 0, 0, 0, 0, 0, 1, 0, 1, 0, 1, 0, 0, 1, 9]"
    by blast
  then show ?thesis
    by (intro conjI ne small positive_sizes_runs c)
qed

section \<open>Offsets and the carry chain\<close>

lemma encode_loop_layout:
  assumes "encode_loop h_BIT_4 input output0 = Returned s"
  shows "laid_out h_BIT_4 input (chunk_count (length input)) (outbuf s)"
    and "length (carry s) = chunk_count (length input)"
    and "\<And>j. j < chunk_count (length input) \<Longrightarrow> carry s ! j = stored_before h_BIT_4 input (Suc j)"
    and "\<And>j. j < chunk_count (length input) \<Longrightarrow>
           chunk_offs (carry s) j = stored_before h_BIT_4 input j"
proof -
  have inv: "packed h_BIT_4 input (chunk_count (length input)) s"
    using assms by (rule encode_loop_packed)
  then show "laid_out h_BIT_4 input (chunk_count (length input)) (outbuf s)"
    and "length (carry s) = chunk_count (length input)"
    by (simp_all add: packed_def)
  show c: "carry s ! j = stored_before h_BIT_4 input (Suc j)"
    if "j < chunk_count (length input)" for j
    using inv that by (simp add: packed_def)
  show "chunk_offs (carry s) j = stored_before h_BIT_4 input j"
    if "j < chunk_count (length input)" for j
  proof (cases j)
    case 0
    then show ?thesis by (simp add: chunk_offs_def)
  next
    case (Suc i)
    then have "i < chunk_count (length input)"
      using that by simp
    then show ?thesis
      using Suc by (simp add: chunk_offs_def c)
  qed
qed



lemma encode_loop_published:
  assumes "encode_loop h_BIT_4 input output0 = Returned s"
  shows "published (encode_loop h_BIT_4 input output0)
     = Some (map (\<lambda>j. stored_before h_BIT_4 input (Suc j)) [0..<chunk_count (length input)])"
proof -
  note lay = encode_loop_layout [OF assms]
  have "carry s = map (\<lambda>j. stored_before h_BIT_4 input (Suc j)) [0..<chunk_count (length input)]"
    by (rule nth_equalityI) (simp_all add: lay(2,3))
  then show ?thesis
    by (simp add: published_def assms)
qed

lemma encode_loop_offsets:
  assumes "encode_loop h_BIT_4 input output0 = Returned s"
  shows "offsets (encode_loop h_BIT_4 input output0)
     = Some (map (stored_before h_BIT_4 input) [0..<chunk_count (length input)])"
proof -
  note lay = encode_loop_layout [OF assms]
  have "map (chunk_offs (carry s)) [0..<length (carry s)]
      = map (stored_before h_BIT_4 input) [0..<chunk_count (length input)]"
    by (rule nth_equalityI) (simp_all add: lay(2,4))
  then show ?thesis
    by (simp add: offsets_def assms)
qed

subsection \<open>The run on three chunks\<close>

lemma keeps_three_empties_ones:
  "\<not> keeps_compressed stage_empties_ones three_chunks 0"
  "keeps_compressed stage_empties_ones three_chunks (Suc 0)"
  "\<not> keeps_compressed stage_empties_ones three_chunks (Suc (Suc 0))"
  unfolding keeps_compressed_def Let_def chunk_bytes_three
  using CS_pos
  by (simp_all add: stage_empties_ones_def take_1_replicate_CS chunk_osize_def chunk_base_def
      length_three)

lemma stored_three_empties_ones:
  "stored stage_empties_ones three_chunks 0 = replicate CS 0"
  "stored stage_empties_ones three_chunks (Suc 0) = []"
  "stored stage_empties_ones three_chunks (Suc (Suc 0)) = [9]"
  using keeps_three_empties_ones
  by (simp_all add: stored_def Let_def chunk_bytes_three stage_empties_ones_def bytes_of_def)

lemma stored_before_three_empties_ones:
  "stored_before stage_empties_ones three_chunks (Suc 0) = CS"
  "stored_before stage_empties_ones three_chunks (Suc (Suc 0)) = CS"
  "stored_before stage_empties_ones three_chunks (Suc (Suc (Suc 0))) = CS + 1"
  by (simp_all add: stored_before_Suc stored_three_empties_ones)

lemma passes_three_empties_ones:
  "\<forall>j < chunk_count (length three_chunks). passes stage_empties_ones three_chunks j"
proof -
  have "passes stage_empties_ones three_chunks 0"
    using keeps_three_empties_ones by (simp add: passes_def)
  moreover have "passes stage_empties_ones three_chunks (Suc 0)"
    using CS_pos
    by (simp add: passes_def stored_before_three_empties_ones stage_empties_ones_def)
  moreover have "passes stage_empties_ones three_chunks (Suc (Suc 0))"
    using CS_pos keeps_three_empties_ones
    by (simp add: passes_def stored_before_three_empties_ones)
  ultimately have "passes stage_empties_ones three_chunks j" if "j < Suc (Suc (Suc 0))" for j
    using that by (auto simp: less_Suc_eq)
  then show ?thesis
    by (simp add: chunk_count_three numeral_3_eq_3)
qed

text \<open>
  The strict increase rests on the contract of the stage; \<open>h_encode\<close> itself does not look
  at the size a stage reports beyond comparing it with \<open>osize\<close>. With the sample stage that
  empties the chunks of ones, which is outside the contract, the second and the third of
  the three chunks both start at payload offset 16384.
\<close>

lemma offsets_not_strict:
  "offsets (encode_loop stage_empties_ones three_chunks zero_buffer) = Some [0, 16384, 16384]"
proof -
  obtain s where s: "encode_loop stage_empties_ones three_chunks zero_buffer = Returned s"
    using encode_loop_returns [OF passes_three_empties_ones] by blast
  have "offsets (encode_loop stage_empties_ones three_chunks zero_buffer)
      = Some (map (stored_before stage_empties_ones three_chunks) [0, Suc 0, Suc (Suc 0)])"
    by (simp only: encode_loop_offsets [OF s] chunk_count_three upt_3)
  then show ?thesis
    by (simp add: stored_before_three_empties_ones CS_def)
qed




section \<open>The sentinel of the carry chain\<close>

lemma stored_empties: "input \<noteq> [] \<Longrightarrow> stored stage_empties input 0 = []"
proof -
  assume "input \<noteq> []"
  then have "0 < chunk_osize (length input) 0"
    by (intro chunk_osize_pos chunk_count_pos) simp
  then have "keeps_compressed stage_empties input 0"
    by (simp add: keeps_compressed_def stage_empties_def)
  then show ?thesis
    by (simp add: stored_compressed stage_empties_def bytes_of_def)
qed

lemma neg_empties: "\<not> csize (stage_empties c) < 0"
  by (simp add: stage_empties_def)

text \<open>
  The value \<open>0\<close> can only come from chunk 0, and only from a stage outside the contract:
  with the sample stage that reports success with no bytes, the worker of chunk 0
  publishes \<open>0\<close>, and with more than one chunk the worker of chunk 1 then polls that slot
  for ever.
\<close>

lemma carry_zero_published:
  "published (encode_loop stage_empties two_bytes zero_buffer) = Some [0] \<and>
   encode_loop stage_empties three_chunks zero_buffer = Spinning 1"
proof
  have ne: "two_bytes \<noteq> []"
    by (simp add: two_bytes_def)
  have "passes stage_empties two_bytes 0"
    by (simp add: passes_def neg_empties)
  then have "\<forall>j < chunk_count (length two_bytes). passes stage_empties two_bytes j"
    by (simp add: chunk_count_two)
  then obtain s where s: "encode_loop stage_empties two_bytes zero_buffer = Returned s"
    using encode_loop_returns by blast
  have "published (encode_loop stage_empties two_bytes zero_buffer)
      = Some (map (\<lambda>j. stored_before stage_empties two_bytes (Suc j)) [0..<1])"
    by (simp only: encode_loop_published [OF s] chunk_count_two)
  then show "published (encode_loop stage_empties two_bytes zero_buffer) = Some [0]"
    by (simp add: stored_before_Suc stored_empties [OF ne])
next
  have ne: "three_chunks \<noteq> []"
    by (simp add: three_chunks_def)
  let ?s0 = "\<lparr>carry = replicate 3 0, outbuf = zero_buffer\<rparr>"
  let ?s1 = "chunk_write stage_empties three_chunks 0 ?s0"
  have first: "encode_chunk stage_empties three_chunks 0 ?s0 = Returned ?s1"
    by (simp add: encode_chunk_eq neg_empties)
  have "carry ?s1 ! 0 = 0"
    by (simp add: chunk_write_def chunk_offs_def stored_empties [OF ne])
  then have second: "encode_chunk stage_empties three_chunks (Suc 0) ?s1 = Spinning (Suc 0)"
    by (simp add: encode_chunk_eq)
  have "encode_loop stage_empties three_chunks zero_buffer
      = encode_chunks stage_empties three_chunks [0, Suc 0, Suc (Suc 0)] ?s0"
    by (simp only: encode_loop_def Let_def chunk_count_three upt_3)
  then show "encode_loop stage_empties three_chunks zero_buffer = Spinning 1"
    by (simp add: first second)
qed





section \<open>Round trip\<close>

lemma drop_bytes_of: "drop a (bytes_of buf 0 n) = bytes_of buf a (n - a)"
  by (rule nth_equalityI) simp_all

lemma take_bytes_of: "m \<le> n \<Longrightarrow> take m (bytes_of buf a n) = bytes_of buf a m"
  by (rule nth_equalityI) simp_all

lemma take_drop_bytes_of:
  "a + m \<le> n \<Longrightarrow> take m (drop a (bytes_of buf 0 n)) = bytes_of buf a m"
  by (simp add: drop_bytes_of take_bytes_of)

lemma chunk_bytes_take_CS: "chunk_bytes input k = take CS (drop (k * CS) input)"
  by (simp add: chunk_bytes_def chunk_osize_def chunk_base_def min_def)

lemma concat_chunk_bytes_take:
  "concat (map (chunk_bytes input) [0..<k]) = take (k * CS) input"
proof (induction k)
  case 0
  show ?case by simp
next
  case (Suc k)
  have "concat (map (chunk_bytes input) [0..<Suc k])
      = concat (map (chunk_bytes input) [0..<k]) @ chunk_bytes input k"
    by simp
  also have "\<dots> = take (k * CS) input @ take CS (drop (k * CS) input)"
    by (simp only: Suc.IH chunk_bytes_take_CS)
  also have "\<dots> = take (k * CS + CS) input"
    by (rule take_add [symmetric])
  finally show ?case
    by (simp add: add.commute)
qed

lemma concat_chunk_bytes:
  "concat (map (chunk_bytes input) [0..<chunk_count (length input)]) = input"
  using chunk_count_upper [of "length input"] by (simp add: concat_chunk_bytes_take)

lemma decode_chunk_stored:
  assumes rec: "reciprocal h_BIT_4 unstage"
    and k: "k < chunk_count (length input)"
    and pass: "passes h_BIT_4 input k"
  shows "(if length (stored h_BIT_4 input k) = chunk_osize (length input) k
          then Some (stored h_BIT_4 input k)
          else unstage (stored h_BIT_4 input k) (chunk_osize (length input) k))
         = Some (chunk_bytes input k)"
proof (cases "keeps_compressed h_BIT_4 input k")
  case True
  let ?c = "chunk_bytes input k"
  have less: "length (stored h_BIT_4 input k) < chunk_osize (length input) k"
    using length_stored_less_iff [OF k, of h_BIT_4] True by simp
  have "?c \<noteq> []"
    using k by (rule chunk_bytes_nonempty)
  moreover have "length ?c \<le> CS"
    by (simp add: length_chunk_bytes chunk_osize_le_CS)
  moreover have "good (h_BIT_4 ?c)" and "csize (h_BIT_4 ?c) < int (length ?c)"
    using True by (simp_all add: keeps_compressed_def Let_def length_chunk_bytes)
  moreover have "0 \<le> csize (h_BIT_4 ?c)"
    using pass True by (simp add: passes_def)
  ultimately have "unstage (bytes_of (scratch_out (h_BIT_4 ?c)) 0 (nat (csize (h_BIT_4 ?c))))
      (length ?c) = Some ?c"
    using rec unfolding reciprocal_def by blast
  then show ?thesis
    using less by (simp add: stored_compressed [OF True] length_chunk_bytes)
next
  case False
  then show ?thesis
    by (simp add: stored_raw length_chunk_bytes)
qed

lemma decode_chunks_Cons:
  assumes "storedSize \<le> min CS (n - k * CS)" and "storedSize \<le> length rest"
    and "(if storedSize = min CS (n - k * CS) then Some (take storedSize rest)
          else unstage (take storedSize rest) (min CS (n - k * CS))) = Some chunk"
    and "length chunk = min CS (n - k * CS)"
    and "decode_chunks unstage n (Suc k) sizes (drop storedSize rest) = Inr chunks_after"
  shows "decode_chunks unstage n k (storedSize # sizes) rest = Inr (chunk @ chunks_after)"
proof -
  have "\<not> (min CS (n - k * CS) < storedSize \<or> length rest < storedSize)"
    using assms(1,2) by linarith
  then show ?thesis
    by (simp only: decode_chunks.simps Let_def assms(3,4,5) if_False option.case sum.case
        simp_thms)
qed

lemma decode_chunks_stored:
  assumes rec: "reciprocal h_BIT_4 unstage"
    and pass: "\<forall>j < chunk_count (length input). passes h_BIT_4 input j"
  shows "k \<le> chunk_count (length input) \<Longrightarrow>
    decode_chunks unstage (length input) k
      (map (\<lambda>j. length (stored h_BIT_4 input j)) [k..<chunk_count (length input)])
      (concat (map (stored h_BIT_4 input) [k..<chunk_count (length input)]))
    = Inr (concat (map (chunk_bytes input) [k..<chunk_count (length input)]))"
proof (induction "chunk_count (length input) - k" arbitrary: k)
  case 0
  then show ?case by simp
next
  case (Suc d)
  let ?n = "chunk_count (length input)"
  from Suc.hyps(2) have k: "k < ?n"
    by simp
  then have upt: "[k..<?n] = k # [Suc k..<?n]"
    by (rule upt_conv_Cons)
  have next_chunks: "decode_chunks unstage (length input) (Suc k)
      (map (\<lambda>j. length (stored h_BIT_4 input j)) [Suc k..<?n])
      (concat (map (stored h_BIT_4 input) [Suc k..<?n]))
    = Inr (concat (map (chunk_bytes input) [Suc k..<?n]))"
    using Suc.hyps(2) k by (intro Suc.hyps(1)) simp_all
  have osize: "min CS (length input - k * CS) = chunk_osize (length input) k"
    by (simp add: chunk_osize_def chunk_base_def)
  have le: "length (stored h_BIT_4 input k) \<le> chunk_osize (length input) k"
    using k by (rule length_stored_le)
  have this_chunk: "(if length (stored h_BIT_4 input k) = chunk_osize (length input) k
          then Some (stored h_BIT_4 input k)
          else unstage (stored h_BIT_4 input k) (chunk_osize (length input) k))
         = Some (chunk_bytes input k)"
    using rec k pass by (intro decode_chunk_stored) simp_all
  have "decode_chunks unstage (length input) k
      (length (stored h_BIT_4 input k) # map (\<lambda>j. length (stored h_BIT_4 input j)) [Suc k..<?n])
      (stored h_BIT_4 input k @ concat (map (stored h_BIT_4 input) [Suc k..<?n]))
    = Inr (chunk_bytes input k @ concat (map (chunk_bytes input) [Suc k..<?n]))"
  proof (rule decode_chunks_Cons)
    show "length (stored h_BIT_4 input k) \<le> min CS (length input - k * CS)"
      using le by (simp only: osize)
    show "length (stored h_BIT_4 input k)
        \<le> length (stored h_BIT_4 input k @ concat (map (stored h_BIT_4 input) [Suc k..<?n]))"
      by simp
    show "(if length (stored h_BIT_4 input k) = min CS (length input - k * CS)
        then Some (take (length (stored h_BIT_4 input k))
          (stored h_BIT_4 input k @ concat (map (stored h_BIT_4 input) [Suc k..<?n])))
        else unstage (take (length (stored h_BIT_4 input k))
          (stored h_BIT_4 input k @ concat (map (stored h_BIT_4 input) [Suc k..<?n])))
          (min CS (length input - k * CS))) = Some (chunk_bytes input k)"
      using this_chunk by (simp only: osize take_append diff_self_eq_0 take_0 append_Nil2
          take_all order_refl)
    show "length (chunk_bytes input k) = min CS (length input - k * CS)"
      by (simp only: osize length_chunk_bytes)
    show "decode_chunks unstage (length input) (Suc k)
        (map (\<lambda>j. length (stored h_BIT_4 input j)) [Suc k..<?n])
        (drop (length (stored h_BIT_4 input k))
          (stored h_BIT_4 input k @ concat (map (stored h_BIT_4 input) [Suc k..<?n])))
      = Inr (concat (map (chunk_bytes input) [Suc k..<?n]))"
      using next_chunks by simp
  qed
  then show ?case
    by (simp only: upt list.map concat.simps)
qed

text \<open>
  Claim C1. For every input that the encoder accepts (not empty, its size a
  \<^verbatim>\<open>long long\<close>), decoding the encoded stream gives the input back, where the decoder
  is the one of section 4.5 of the specification and the inverse it invokes recovers what
  the compression stage reports as a successful smaller result. The encoder returns for
  every stage whose successful smaller results are not empty, and whenever it returns the
  decoder reproduces the input.
\<close>

theorem round_trip:
  assumes "input \<noteq> []" and "length input < 2 ^ 63" and "reciprocal h_BIT_4 unstage"
  shows "(positive_sizes h_BIT_4 \<longrightarrow> (\<exists>r. h_encode h_BIT_4 input output0 = Returned r)) \<and>
    (\<forall>r. h_encode h_BIT_4 input output0 = Returned r \<longrightarrow>
       decode unstage (bytes_of (out_buffer r) 0 (outsize r)) = Inr input)"
proof (intro conjI allI impI)
  assume "positive_sizes h_BIT_4"
  with assms(1) show "\<exists>r. h_encode h_BIT_4 input output0 = Returned r"
    by (rule h_encode_returns)
next
  fix r
  assume r: "h_encode h_BIT_4 input output0 = Returned r"
  let ?n = "chunk_count (length input)"
  let ?buf = "out_buffer r"
  let ?stream = "bytes_of ?buf 0 (outsize r)"
  note lay = h_encode_layout [OF r]
  have size: "outsize r = 8 + 2 * ?n + stored_before h_BIT_4 input ?n"
    by (rule lay(2))
  have len: "length ?stream = 8 + 2 * ?n + stored_before h_BIT_4 input ?n"
    by (simp add: size)
  have "take 8 ?stream = bytes_of ?buf 0 8"
    by (intro take_bytes_of) (simp add: size)
  then have "le_value (take 8 ?stream) = length input mod 256 ^ 8"
    by (simp only: lay(3) le_value_le_bytes)
  then have original: "le_value (take 8 ?stream) = length input"
    using assms(2) by simp
  have entry: "le_value (take 2 (drop (8 + 2 * j) ?stream)) = length (stored h_BIT_4 input j)"
    if "j < ?n" for j
  proof -
    have "take 2 (drop (8 + 2 * j) ?stream) = bytes_of ?buf (8 + 2 * j) 2"
      using that by (intro take_drop_bytes_of) (simp add: size)
    then have "le_value (take 2 (drop (8 + 2 * j) ?stream)) = size_table ?buf j"
      by (simp add: size_table_def)
    then show ?thesis
      using h_encode_size_table [OF r that] by simp
  qed
  have table: "map (\<lambda>chunkID. le_value (take 2 (drop (8 + 2 * chunkID) ?stream))) [0..<?n]
      = map (\<lambda>j. length (stored h_BIT_4 input j)) [0..<?n]"
    by (rule map_cong) (simp_all add: entry)
  have "drop (8 + 2 * ?n) ?stream
      = bytes_of ?buf (8 + 2 * ?n) (stored_before h_BIT_4 input ?n)"
    by (simp add: drop_bytes_of size)
  then have rest: "drop (8 + 2 * ?n) ?stream = concat (map (stored h_BIT_4 input) [0..<?n])"
    by (simp only: laid_out_payload_bytes [OF lay(1)])
  have pass: "\<forall>j < ?n. passes h_BIT_4 input j"
    using r by (simp add: h_encode_passes)
  have "decode unstage ?stream = decode_chunks unstage (length input) 0
      (map (\<lambda>j. length (stored h_BIT_4 input j)) [0..<?n])
      (concat (map (stored h_BIT_4 input) [0..<?n]))"
    unfolding decode_def Let_def original table rest
    using len by simp
  also have "\<dots> = Inr (concat (map (chunk_bytes input) [0..<?n]))"
    using assms(3) pass by (intro decode_chunks_stored) simp_all
  finally show "decode unstage ?stream = Inr input"
    by (simp only: concat_chunk_bytes)
qed


subsection \<open>The run-length stage on three chunks\<close>

lemma reciprocal_runs: "reciprocal stage_runs unstage_runs"
proof -
  have "unstage_runs (bytes_of (scratch_out (stage_runs c)) 0 (nat (csize (stage_runs c))))
      (length c) = Some c" if "good (stage_runs c)" for c
  proof -
    from that have run: "1 < length c \<and> c = replicate (length c) (c ! 0)"
      by (simp add: stage_runs_def)
    then have "bytes_of (scratch_out (stage_runs c)) 0 (nat (csize (stage_runs c))) = [c ! 0]"
      by (simp add: stage_runs_def bytes_of_def)
    then have "unstage_runs (bytes_of (scratch_out (stage_runs c)) 0 (nat (csize (stage_runs c))))
        (length c) = Some (replicate (length c) (c ! 0))"
      by (simp add: unstage_runs_def)
    with run show ?thesis
      by simp
  qed
  then show ?thesis
    unfolding reciprocal_def by blast
qed

text \<open>
  Three chunks and the run-length stage: the two full chunks are stored in one byte each,
  the last chunk raw; the stream has 17 bytes and decodes to the input.
\<close>

theorem round_trip_witness:
  "three_chunks \<noteq> [] \<and> length three_chunks < 2 ^ 63 \<and> reciprocal stage_runs unstage_runs \<and>
   positive_sizes stage_runs \<and>
   (\<exists>r. h_encode stage_runs three_chunks zero_buffer = Returned r \<and>
        bytes_of (out_buffer r) 0 (outsize r)
          = [1, 128, 0, 0, 0, 0, 0, 0, 1, 0, 1, 0, 1, 0, 0, 1, 9] \<and>
        decode unstage_runs (bytes_of (out_buffer r) 0 (outsize r)) = Inr three_chunks)"
proof -
  have ne: "three_chunks \<noteq> []"
    by (simp add: three_chunks_def)
  have small: "length three_chunks < 2 ^ 63"
    by (simp add: length_three CS_def)
  note t = round_trip [OF ne small reciprocal_runs, of zero_buffer]
  from t positive_sizes_runs obtain r where
    r: "h_encode stage_runs three_chunks zero_buffer = Returned r"
    by blast
  with t have decoded: "decode unstage_runs (bytes_of (out_buffer r) 0 (outsize r)) = Inr three_chunks"
    by blast
  have "bytes_of (out_buffer r) 0 (outsize r)
     = le_bytes 8 (length three_chunks)
       @ concat (map (\<lambda>j. le_bytes 2 (length (stored stage_runs three_chunks j)))
           [0, Suc 0, Suc (Suc 0)])
       @ concat (map (stored stage_runs three_chunks) [0, Suc 0, Suc (Suc 0)])"
    by (simp only: h_encode_stream [OF r] chunk_count_three upt_3)
  then have "bytes_of (out_buffer r) 0 (outsize r)
      = [1, 128, 0, 0, 0, 0, 0, 0, 1, 0, 1, 0, 1, 0, 0, 1, 9]"
    by (simp add: stored_three_runs length_three CS_def le_bytes_numeral)
  with r decoded have "\<exists>r. h_encode stage_runs three_chunks zero_buffer = Returned r \<and>
        bytes_of (out_buffer r) 0 (outsize r)
          = [1, 128, 0, 0, 0, 0, 0, 0, 1, 0, 1, 0, 1, 0, 0, 1, 9] \<and>
        decode unstage_runs (bytes_of (out_buffer r) 0 (outsize r)) = Inr three_chunks"
    by blast
  then show ?thesis
    by (intro conjI ne small reciprocal_runs positive_sizes_runs)
qed


section \<open>The driver\<close>

lemma main_usage:
  "length argv < 3 \<Longrightarrow>
   main h_QUANT_IABS_0_f32 fs argv
     = \<lparr>messages = [Banner, Usage_line], ending = Exit (- 1), written = None\<rparr>"
  by (simp add: main_def)

lemma main_unreadable:
  "3 \<le> length argv \<Longrightarrow> readable fs (argv ! 1) = None \<Longrightarrow>
   main h_QUANT_IABS_0_f32 fs argv
     = \<lparr>messages = [Banner], ending = Undefined_call, written = None\<rparr>"
  by (simp add: main_def)

lemma main_empty:
  "3 \<le> length argv \<Longrightarrow> readable fs (argv ! 1) = Some [] \<Longrightarrow>
   main h_QUANT_IABS_0_f32 fs argv
     = \<lparr>messages = [Banner, Input_too_small], ending = LC_error, written = None\<rparr>"
  by (simp add: main_def)

lemma main_invalid_flag:
  "3 < length argv \<Longrightarrow> readable fs (argv ! 1) = Some input \<Longrightarrow> input \<noteq> [] \<Longrightarrow>
   argv ! 3 \<noteq> ''y'' \<Longrightarrow>
   main h_QUANT_IABS_0_f32 fs argv
     = \<lparr>messages = [Banner, Original_size (length input), Invalid_argument],
        ending = LC_error, written = None\<rparr>"
  by (simp add: main_def)

lemma length_dataset: "length (dataset h_QUANT_IABS_0_f32 input ds) = 2207"
  by (simp add: dataset_def)

lemma length_concat_const:
  "(\<And>x. x \<in> set xs \<Longrightarrow> length (f x) = n) \<Longrightarrow> length (concat (map f xs)) = n * length xs"
  by (induction xs) simp_all

lemma length_out_bytes:
  "length (concat (map (\<lambda>d. le_bytes 8 (unat d))
     (concat (map (dataset h_QUANT_IABS_0_f32 input) [0..<n])))) = 17656 * n"
proof -
  have "length (concat (map (dataset h_QUANT_IABS_0_f32 input) [0..<n])) = 2207 * n"
    using length_concat_const [of "[0..<n]" "dataset h_QUANT_IABS_0_f32 input" 2207]
    by (simp add: length_dataset)
  then show ?thesis
    using length_concat_const [of "concat (map (dataset h_QUANT_IABS_0_f32 input) [0..<n])"
      "\<lambda>d. le_bytes 8 (unat d)" 8]
    by simp
qed

text \<open>
  A run that reaches the output step: the arguments are there, the input file is readable
  and not empty, the flag is absent or \<^verbatim>\<open>y\<close>, the output file can be opened.
\<close>

lemma main_output_step:
  assumes "3 \<le> length argv" and "readable fs (argv ! 1) = Some input" and "input \<noteq> []"
    and "length argv = 3 \<or> argv ! 3 = ''y''" and "writable fs (argv ! 2)"
  shows "main h_QUANT_IABS_0_f32 fs argv =
    (if 17656 * (length input div 8828) < 2 * length input
     then \<lparr>messages = [Banner, Original_size (length input)],
           ending = Undefined_call, written = None\<rparr>
     else \<lparr>messages = [Banner, Original_size (length input)], ending = Exit 0,
           written = Some (argv ! 2, take (length input * 2)
             (concat (map (\<lambda>d. le_bytes 8 (unat d))
               (concat (map (dataset h_QUANT_IABS_0_f32 input)
                 [0..<length input div 4 div 2207])))))\<rparr>)"
proof -
  have "length input div 4 div 2207 = length input div 8828"
    by (simp add: div_mult2_eq [symmetric])
  then have "8 * (length input div 4 div 2207 * 2207) = 17656 * (length input div 8828)"
    by simp
  moreover have "\<not> (3 < length argv \<and> argv ! 3 \<noteq> ''y'')"
    using assms(4) by auto
  moreover have "\<not> length argv < 3"
    using assms(1) by simp
  ultimately show ?thesis
    using assms(2,3,5) by (simp add: main_def Let_def mult.commute not_less)
qed

lemma main_writes_twice_insize:
  assumes "3 \<le> length argv" and "readable fs (argv ! 1) = Some input" and "input \<noteq> []"
    and "length argv = 3 \<or> argv ! 3 = ''y''" and "writable fs (argv ! 2)"
    and "length input mod 8828 = 0"
  shows "\<exists>bytes. main h_QUANT_IABS_0_f32 fs argv
            = \<lparr>messages = [Banner, Original_size (length input)], ending = Exit 0,
               written = Some (argv ! 2, bytes)\<rparr> \<and>
          length bytes = 2 * length input"
proof -
  let ?bytes = "concat (map (\<lambda>d. le_bytes 8 (unat d))
     (concat (map (dataset h_QUANT_IABS_0_f32 input) [0..<length input div 4 div 2207])))"
  have exact: "8828 * (length input div 8828) = length input"
    using assms(6) by (simp add: mod_eq_0_iff_dvd)
  then have enough: "\<not> 17656 * (length input div 8828) < 2 * length input"
    by linarith
  have "length input div 4 div 2207 = length input div 8828"
    by (simp add: div_mult2_eq [symmetric])
  then have "length ?bytes = 17656 * (length input div 8828)"
    by (simp only: length_out_bytes)
  then have "length (take (length input * 2) ?bytes) = 2 * length input"
    using exact by simp
  moreover have "main h_QUANT_IABS_0_f32 fs argv
      = \<lparr>messages = [Banner, Original_size (length input)], ending = Exit 0,
         written = Some (argv ! 2, take (length input * 2) ?bytes)\<rparr>"
    using main_output_step [OF assms(1-5), of h_QUANT_IABS_0_f32] enough by simp
  ultimately show ?thesis
    by blast
qed

lemma main_reads_past_array:
  assumes "3 \<le> length argv" and "readable fs (argv ! 1) = Some input" and "input \<noteq> []"
    and "length argv = 3 \<or> argv ! 3 = ''y''" and "writable fs (argv ! 2)"
    and "length input mod 8828 \<noteq> 0"
  shows "main h_QUANT_IABS_0_f32 fs argv
      = \<lparr>messages = [Banner, Original_size (length input)],
         ending = Undefined_call, written = None\<rparr>"
proof -
  have "length input = 8828 * (length input div 8828) + length input mod 8828"
    by simp
  then have "17656 * (length input div 8828) < 2 * length input"
    using assms(6) by linarith
  then show ?thesis
    using main_output_step [OF assms(1-5), of h_QUANT_IABS_0_f32] by simp
qed

text \<open>
  Claim C8 says that an unreadable input file is treated as a fatal input error.
  \<^verbatim>\<open>main\<close> does not test what \<^verbatim>\<open>fopen\<close> returns: with an input file that cannot be
  opened it prints the banner and hands the null pointer to \<^verbatim>\<open>fseek\<close>. No error is
  reported and nothing is written.
\<close>

theorem main_unreadable_input:
  "main quant_keeps sample_files [''lc'', ''missing.bin'', ''out.bin'']
     = \<lparr>messages = [Banner], ending = Undefined_call, written = None\<rparr>"
  by (rule main_unreadable) (simp_all add: sample_files_def)

text \<open>
  Claim C10 says that every run that reaches the output step writes exactly
  \<open>2 * insize\<close> bytes derived from the quantizer. On an input file of one byte
  \<^verbatim>\<open>out_data\<close> is an array of no element, and \<^verbatim>\<open>fwrite\<close> is asked for 2 bytes of it.
\<close>

theorem main_one_byte_input:
  "main quant_keeps sample_files [''lc'', ''one.bin'', ''out.bin'']
     = \<lparr>messages = [Banner, Original_size 1], ending = Undefined_call, written = None\<rparr>"
proof -
  have "main quant_keeps sample_files [''lc'', ''one.bin'', ''out.bin'']
      = \<lparr>messages = [Banner, Original_size (length [7 :: byte])],
         ending = Undefined_call, written = None\<rparr>"
    by (rule main_reads_past_array) (simp_all add: sample_files_def)
  then show ?thesis
    by simp
qed

end
